theory Spec2Isabelle
  imports Complex_Main
begin

section \<open>Data model of \<open>run_metroman.py\<close>\<close>

text \<open>
  An observation instant is the rounded hour count that \<open>retrieve_obs\<close> computes from
  the \<open>reach/time\<close> variable; a masked entry is filled with NaN and is \<open>None\<close> here.
  A reading (elevation, width, slope, prior) is a float that may be NaN; only whether it
  is NaN is ever inspected by the code, so a reading is \<open>real option\<close> with \<open>None\<close> for
  NaN.
\<close>

type_synonym instant = "int option"
type_synonym reading = "real option"

text \<open>
  One row of a SWOT file per value of the \<open>nt\<close> dimension: time, \<open>wse\<close>, \<open>width\<close>,
  \<open>slope2\<close>. The four NetCDF variables share the dimension, hence one list of rows.
\<close>

type_synonym swot_file = "(instant \<times> reading \<times> reading \<times> reading) list"

definition swot_time :: "swot_file \<Rightarrow> instant list" where
  "swot_time f = map fst f"

definition swot_wse :: "swot_file \<Rightarrow> reading list" where
  "swot_wse f = map (\<lambda>row. fst (snd row)) f"

definition swot_width :: "swot_file \<Rightarrow> reading list" where
  "swot_width f = map (\<lambda>row. fst (snd (snd row))) f"

definition swot_slope2 :: "swot_file \<Rightarrow> reading list" where
  "swot_slope2 f = map (\<lambda>row. snd (snd (snd row))) f"

text \<open>
  An entry of the reach list, with what the file system and the reference files hold for
  it: \<open>swot = None\<close> when \<open>os.path.exists(swotfile)\<close> is false.
\<close>

record reach =
  reach_id :: nat
  swot :: "swot_file option"
  sos_mean_q :: reading
  sword_reach_length :: real
  sword_dist_out :: real

datatype py_error =
  KeyError | NameError | IndexError | AttributeError | ValueError | ClosedDatasetError
  | OverflowError

section \<open>Time alignment (lines 109 to 163)\<close>

text \<open>\<open>[t for t in ts if not np.isnan(t)]\<close>\<close>

fun not_nan :: "'a option list \<Rightarrow> 'a list" where
  "not_nan [] = []"
| "not_nan (None # ts) = not_nan ts"
| "not_nan (Some v # ts) = v # not_nan ts"

text \<open>
  \<open>t in overlap_ts\<close> for a float \<open>t\<close> of the raw sequence: NaN equals nothing, and
  \<open>overlap_ts\<close> holds no NaN.
\<close>

fun in_overlap :: "instant \<Rightarrow> int list \<Rightarrow> bool" where
  "in_overlap None ots = False"
| "in_overlap (Some v) ots = (v \<in> set ots)"

text \<open>
  \<open>t in list(tarray[:ii])\<close>: the slice is converted to fresh float objects, so a NaN
  is never found in it.
\<close>

fun in_prefix :: "instant \<Rightarrow> instant list \<Rightarrow> bool" where
  "in_prefix None pre = False"
| "in_prefix (Some v) pre = (Some v \<in> set pre)"

text \<open>The first loop: \<open>allts[reach_id] = ts\<close> for every reach whose file exists.\<close>

fun extract_allts :: "reach list \<Rightarrow> (nat \<rightharpoonup> instant list) \<Rightarrow> (nat \<rightharpoonup> instant list)" where
  "extract_allts [] allts = allts"
| "extract_allts (r # rs) allts =
     (case swot r of
        Some f \<Rightarrow> extract_allts rs (allts(reach_id r \<mapsto> swot_time f))
      | None \<Rightarrow> extract_allts rs allts)"

text \<open>
  The second loop, from position \<open>i\<close> of the enumeration. \<open>allts[reach_id]\<close> raises
  KeyError for an identifier without an entry. \<open>list(set(a).intersection(set(b)))\<close>
  is a duplicate-free list in the order of the hash table; only membership tests and the
  final \<open>sort()\<close> read that list, so the order kept here (that of \<open>a\<close>) cannot be
  observed.
\<close>

fun overlap_loop :: "nat \<Rightarrow> reach list \<Rightarrow> (nat \<rightharpoonup> instant list) \<Rightarrow>
    int list \<times> (nat \<rightharpoonup> bool list) \<Rightarrow> py_error + int list \<times> (nat \<rightharpoonup> bool list)" where
  "overlap_loop i [] allts st = Inr st"
| "overlap_loop i (r # rs) allts (overlap_ts, overlap_fs) =
     (case allts (reach_id r) of
        None \<Rightarrow> Inl KeyError
      | Some ts \<Rightarrow>
          (if i = 0 then
             overlap_loop (Suc i) rs allts
               (not_nan ts, overlap_fs(reach_id r \<mapsto> replicate (length ts) True))
           else
             (let treach = not_nan ts;
                  ots = remdups (filter (\<lambda>t. t \<in> set treach) overlap_ts)
              in overlap_loop (Suc i) rs allts
                   (ots, overlap_fs(reach_id r \<mapsto> map (\<lambda>t. in_overlap t ots) ts)))))"

text \<open>
  The body of the third loop at position \<open>ii\<close> of one reach: set the flag from the
  membership test, then clear it when the value occurred earlier in the raw sequence.
\<close>

definition fix_step :: "instant list \<Rightarrow> int list \<Rightarrow> nat \<Rightarrow> bool list \<Rightarrow> bool list" where
  "fix_step tarray overlap_ts ii fs =
     (let t = tarray ! ii;
          fs1 = (if in_overlap t overlap_ts then fs[ii := True] else fs[ii := False])
      in if in_prefix t (take ii tarray) then fs1[ii := False] else fs1)"

definition fix_reach :: "instant list \<Rightarrow> int list \<Rightarrow> bool list \<Rightarrow> bool list" where
  "fix_reach tarray overlap_ts fs = fold (fix_step tarray overlap_ts) [0..<length tarray] fs"

fun fix_loop :: "reach list \<Rightarrow> (nat \<rightharpoonup> instant list) \<Rightarrow> int list \<Rightarrow>
    (nat \<rightharpoonup> bool list) \<Rightarrow> py_error + (nat \<rightharpoonup> bool list)" where
  "fix_loop [] allts overlap_ts overlap_fs = Inr overlap_fs"
| "fix_loop (r # rs) allts overlap_ts overlap_fs =
     (case allts (reach_id r) of
        None \<Rightarrow> Inl KeyError
      | Some ts \<Rightarrow>
          (case overlap_fs (reach_id r) of
             None \<Rightarrow> Inl KeyError
           | Some fs \<Rightarrow>
               fix_loop rs allts overlap_ts
                 (overlap_fs(reach_id r \<mapsto> fix_reach ts overlap_ts fs))))"

record alignment =
  al_allts :: "nat \<rightharpoonup> instant list"
  al_overlap_ts :: "int list"
  al_overlap_fs :: "nat \<rightharpoonup> bool list"
  al_nt :: nat

text \<open>Lines 113 to 163 as a whole; \<open>overlap_ts.sort()\<close> comes last.\<close>

definition time_alignment :: "reach list \<Rightarrow> py_error + alignment" where
  "time_alignment reachlist =
     (let a = extract_allts reachlist Map.empty in
      case overlap_loop 0 reachlist a ([], Map.empty) of
        Inl e \<Rightarrow> Inl e
      | Inr (ots, fs) \<Rightarrow>
          (case fix_loop reachlist a ots fs of
             Inl e \<Rightarrow> Inl e
           | Inr fs' \<Rightarrow>
               Inr \<lparr>al_allts = a, al_overlap_ts = sort ots, al_overlap_fs = fs',
                    al_nt = length (sort ots)\<rparr>))"

section \<open>Observation retrieval (lines 165 to 353)\<close>

definition ntmin :: nat where
  "ntmin = 4"

definition ntmin_prior :: nat where
  "ntmin_prior = 4"

definition nRmin :: nat where
  "nRmin = 3"

record domain =
  DAll_nR :: nat
  DAll_nt :: nat
  DAll_t :: "real list option"

record observations =
  AllObs_h :: "reading list list"
  AllObs_w :: "reading list list"
  AllObs_S :: "reading list list"

text \<open>\<open>AllObs\<close> is an \<open>Observations\<close> object, or the float \<open>0.\<close> of line 196.\<close>

datatype allobs = Obs observations | FloatZero

text \<open>
  \<open>iDelete\<close> is the integer \<open>0\<close> on the early returns and the index array of
  \<open>np.where\<close> on the last one.
\<close>

datatype ledger_index = Scalar int | Indices "nat list"

text \<open>
  The reads of the loop of step 1.2, logged in the order the code makes them: the three
  channels of the SWOT file, the prior of the SoS file, the length and distance of the
  SWORD file, each with the position of the reach.
\<close>

datatype read_event = ReadWse nat | ReadWidth nat | ReadSlope nat | ReadPrior nat | ReadReference nat

text \<open>
  What \<open>retrieve_obs\<close> returns, with two ghost fields: the log of reads and the list of
  the values assigned to \<open>SetQuality\<close>, in order. \<open>Qbar\<close> and the matrices of
  \<open>AllObs\<close> hold the entries assigned so far (the rest of an \<open>np.empty\<close> array is
  uninitialised memory).
\<close>

record retrieval =
  Qbar :: "reading list"
  iDelete :: ledger_index
  nDelete :: nat
  SetQuality :: nat
  DAll :: domain
  AllObs :: allobs
  overlap_ts_out :: "int list"
  reads :: "read_event list"
  quality_trace :: "nat list"

record loop_state =
  ls_AllObs :: allobs
  ls_Qbar :: "reading list"
  ls_SetQuality :: nat
  ls_reads :: "read_event list"
  ls_trace :: "nat list"

datatype flow = Raise py_error | Return retrieval | Next loop_state

text \<open>The sum of a boolean array, and indexing by one.\<close>

definition count_true :: "bool list \<Rightarrow> nat" where
  "count_true msk = length (filter (\<lambda>b. b) msk)"

definition select :: "bool list \<Rightarrow> 'a list \<Rightarrow> 'a list" where
  "select msk xs = map snd (filter fst (zip msk xs))"

text \<open>\<open>np.delete(xs, D)\<close> for indices in range: the entries at the other positions, in order.\<close>

definition np_delete :: "'a list \<Rightarrow> nat list \<Rightarrow> 'a list" where
  "np_delete xs D = map (\<lambda>i. xs ! i) (filter (\<lambda>i. i \<notin> set D) [0..<length xs])"

text \<open>
  Line 180: \<open>epoch + datetime.timedelta(hours=int(t))\<close> for every aligned instant, with
  the epoch 2000-01-01 00:00. A datetime is kept as its hours since the epoch. The
  addition raises OverflowError when the result lies before 0001-01-01 00:00 (17522856
  hours before the epoch) or after 9999-12-31 23:00 (70126559 hours after it).
\<close>

definition datetime_ok :: "int \<Rightarrow> bool" where
  "datetime_ok t = (- 17522856 \<le> t \<and> t \<le> 70126559)"

definition tall :: "int list \<Rightarrow> py_error + int list" where
  "tall ots = (if list_all datetime_ok ots then Inr ots else Inl OverflowError)"

text \<open>
  \<open>talli\<close> (lines 184 to 187): days between each datetime and the first one.
\<close>

definition elapsed_days :: "int list \<Rightarrow> real list" where
  "elapsed_days ots = (case ots of [] \<Rightarrow> [] | t0 # _ \<Rightarrow> map (\<lambda>t. real_of_int (t - t0) / 24) ots)"

text \<open>
  Steps 1.2.3 to 1.2.5 for the reach at position \<open>i\<close>: the masked channels become row
  \<open>i\<close> of the three matrices, \<open>Qbar[i]\<close> is read, and an undefined prior sets
  \<open>SetQuality\<close> to 2 without leaving the loop.
\<close>

definition reach_reads :: "nat \<Rightarrow> read_event list" where
  "reach_reads i = [ReadWse i, ReadWidth i, ReadSlope i, ReadPrior i, ReadReference i]"

definition read_reach :: "nat \<Rightarrow> reach \<Rightarrow> bool list \<Rightarrow> swot_file \<Rightarrow> observations \<Rightarrow>
    loop_state \<Rightarrow> loop_state" where
  "read_reach i r msk f ob st =
     (let ob' = \<lparr>AllObs_h = AllObs_h ob @ [select msk (swot_wse f)],
                 AllObs_w = AllObs_w ob @ [select msk (swot_width f)],
                 AllObs_S = AllObs_S ob @ [select msk (swot_slope2 f)]\<rparr>;
          q = sos_mean_q r;
          st1 = st\<lparr>ls_AllObs := Obs ob',
                  ls_Qbar := ls_Qbar st @ [q],
                  ls_reads := ls_reads st @ reach_reads i\<rparr>
      in if q = None
         then st1\<lparr>ls_SetQuality := 2, ls_trace := ls_trace st1 @ [2]\<rparr>
         else st1)"

text \<open>
  The loop of step 1.2 from position \<open>i\<close>. A reach without a file leaves \<open>swot_dataset\<close>
  bound to the closed dataset of an earlier iteration, and reading from it raises. The
  return of the consistency check drops the first aligned instant
  (\<open>np.delete(overlap_ts, 0)\<close>).
\<close>

fun reach_loop :: "nat \<Rightarrow> reach list \<Rightarrow> alignment \<Rightarrow> domain \<Rightarrow> loop_state \<Rightarrow> flow" where
  "reach_loop i [] al D st = Next st"
| "reach_loop i (r # rs) al D st =
     (case al_overlap_fs al (reach_id r) of
        None \<Rightarrow> Raise KeyError
      | Some msk \<Rightarrow>
          if count_true msk \<noteq> DAll_nt D then
            (case al_overlap_ts al of
               [] \<Rightarrow> Raise IndexError
             | _ # rest \<Rightarrow>
                 Return \<lparr>Qbar = ls_Qbar st, iDelete = Scalar 0, nDelete = 0, SetQuality = 2,
                   DAll = D, AllObs = ls_AllObs st, overlap_ts_out = rest,
                   reads = ls_reads st, quality_trace = ls_trace st @ [2]\<rparr>)
          else
            (case swot r of
               None \<Rightarrow> Raise ClosedDatasetError
             | Some f \<Rightarrow>
                 if length msk \<noteq> length f then Raise IndexError
                 else
                   (case ls_AllObs st of
                      FloatZero \<Rightarrow> Raise AttributeError
                    | Obs ob \<Rightarrow> reach_loop (Suc i) rs al D (read_reach i r msk f ob st))))"

subsection \<open>Validity filter (lines 305 to 318)\<close>

text \<open>\<open>np.any(np.isnan(M), 0)\<close> for a matrix of \<open>n\<close> columns.\<close>

definition any_isnan :: "reading list list \<Rightarrow> nat \<Rightarrow> bool list" where
  "any_isnan M n = map (\<lambda>j. list_ex (\<lambda>row. row ! j = None) M) [0..<n]"

text \<open>\<open>np.where\<close> of the disjunction of the three channels: the indices of the true entries.\<close>

definition bad_columns :: "observations \<Rightarrow> nat \<Rightarrow> nat list" where
  "bad_columns ob n =
     filter (\<lambda>j. any_isnan (AllObs_h ob) n ! j \<or> any_isnan (AllObs_w ob) n ! j
                 \<or> any_isnan (AllObs_S ob) n ! j) [0..<n]"

record filtered =
  f_iDelete :: "nat list"
  f_nDelete :: nat
  f_obs :: observations
  f_nt :: nat
  f_talli :: "real list"

definition validity_filter :: "observations \<Rightarrow> nat \<Rightarrow> real list \<Rightarrow> filtered" where
  "validity_filter ob n talli =
     (let D = bad_columns ob n;
          k = length D
      in \<lparr>f_iDelete = D, f_nDelete = k,
          f_obs = \<lparr>AllObs_h = map (\<lambda>row. np_delete row D) (AllObs_h ob),
                   AllObs_w = map (\<lambda>row. np_delete row D) (AllObs_w ob),
                   AllObs_S = map (\<lambda>row. np_delete row D) (AllObs_S ob)\<rparr>,
          f_nt = n - k,
          f_talli = np_delete talli D\<rparr>)"

subsection \<open>Quality checkpoints\<close>

text \<open>Lines 203 to 206.\<close>

definition initial_quality :: "nat \<Rightarrow> nat" where
  "initial_quality nr = (if nr < nRmin then 1 else 0)"

text \<open>
  The branch taken at lines 328 to 333, for thresholds \<open>m\<close> (\<open>ntmin\<close>) and \<open>mp\<close>
  (\<open>ntmin_prior\<close>).
\<close>

datatype post_branch = PostInvalid | PostDegraded | PostPass

definition post_filter_branch :: "nat \<Rightarrow> nat \<Rightarrow> nat \<Rightarrow> post_branch" where
  "post_filter_branch m mp n =
     (if n < m then (if n < mp then PostInvalid else PostDegraded) else PostPass)"

text \<open>Lines 328 to 353: the value \<open>SetQuality\<close> has after the checkpoint.\<close>

definition post_filter_quality :: "nat \<Rightarrow> nat \<Rightarrow> nat \<Rightarrow> nat \<Rightarrow> nat" where
  "post_filter_quality m mp n q =
     (case post_filter_branch m mp n of PostInvalid \<Rightarrow> 2 | PostDegraded \<Rightarrow> 1 | PostPass \<Rightarrow> q)"

definition post_filter :: "domain \<Rightarrow> int list \<Rightarrow> loop_state \<Rightarrow> observations \<Rightarrow> real list \<Rightarrow> retrieval" where
  "post_filter D ots st ob talli =
     (let fl = validity_filter ob (DAll_nt D) talli;
          D' = D\<lparr>DAll_nt := f_nt fl\<rparr>;
          q = post_filter_quality ntmin ntmin_prior (f_nt fl) (ls_SetQuality st)
      in case post_filter_branch ntmin ntmin_prior (f_nt fl) of
           PostPass \<Rightarrow>
             \<lparr>Qbar = ls_Qbar st, iDelete = Indices (f_iDelete fl), nDelete = f_nDelete fl,
              SetQuality = q, DAll = D'\<lparr>DAll_t := Some (f_talli fl)\<rparr>,
              AllObs = Obs (f_obs fl), overlap_ts_out = ots,
              reads = ls_reads st, quality_trace = ls_trace st\<rparr>
         | _ \<Rightarrow>
             \<lparr>Qbar = ls_Qbar st, iDelete = Scalar 0, nDelete = 0,
              SetQuality = q, DAll = D',
              AllObs = Obs (f_obs fl), overlap_ts_out = ots,
              reads = ls_reads st, quality_trace = ls_trace st @ [q]\<rparr>)"

text \<open>
  Lines 165 to 206: the domain, and the state before the loop of step 1.2. \<open>AllObs\<close> is
  an observation object when the last file looked at in the first loop exists
  (\<open>swot_file_exists\<close> at line 189), the float \<open>0.\<close> otherwise.
\<close>

definition initial_domain :: "alignment \<Rightarrow> reach list \<Rightarrow> domain" where
  "initial_domain al reachlist =
     \<lparr>DAll_nR = length reachlist, DAll_nt = al_nt al, DAll_t = None\<rparr>"

definition initial_state :: "reach list \<Rightarrow> loop_state" where
  "initial_state reachlist =
     \<lparr>ls_AllObs = (if swot (last reachlist) \<noteq> None
                    then Obs \<lparr>AllObs_h = [], AllObs_w = [], AllObs_S = []\<rparr>
                    else FloatZero),
      ls_Qbar = [],
      ls_SetQuality = initial_quality (length reachlist),
      ls_reads = [],
      ls_trace = [initial_quality (length reachlist)]\<rparr>"

text \<open>
  \<open>retrieve_obs\<close>. The datetimes of line 180 are computed before any checkpoint. With
  an empty reach list \<open>swot_file_exists\<close> is unbound at line 189.
  \<open>DAll.L\<close>, \<open>DAll.xkm\<close>, \<open>DAll.dt\<close> and the reshaped vectors are float arithmetic on
  values no check reads, and are left out.
\<close>

definition retrieve_obs :: "reach list \<Rightarrow> py_error + retrieval" where
  "retrieve_obs reachlist =
     (case time_alignment reachlist of
        Inl e \<Rightarrow> Inl e
      | Inr al \<Rightarrow>
          (case tall (al_overlap_ts al) of
             Inl e \<Rightarrow> Inl e
           | Inr dts \<Rightarrow>
               (case reachlist of
                  [] \<Rightarrow> Inl NameError
                | _ # _ \<Rightarrow>
                    (let D = initial_domain al reachlist;
                         talli = elapsed_days dts;
                         st0 = initial_state reachlist
                     in if DAll_nt D < ntmin_prior then
                          Inr \<lparr>Qbar = ls_Qbar st0, iDelete = Scalar 0, nDelete = 0,
                               SetQuality = 2, DAll = D, AllObs = ls_AllObs st0,
                               overlap_ts_out = al_overlap_ts al,
                               reads = ls_reads st0, quality_trace = ls_trace st0 @ [2]\<rparr>
                        else
                          (case reach_loop 0 reachlist al D st0 of
                             Raise e \<Rightarrow> Inl e
                           | Return res \<Rightarrow> Inr res
                           | Next st \<Rightarrow>
                               (case ls_AllObs st of
                                  FloatZero \<Rightarrow> Inl AttributeError
                                | Obs ob \<Rightarrow>
                                    Inr (post_filter D (al_overlap_ts al) st ob talli)))))))"

section \<open>Output assembly (lines 428 to 438 of \<open>write_output\<close>)\<close>

definition fillvalue :: real where
  "fillvalue = - 999999999999"

text \<open>
  \<open>iInsert = iDelete - np.arange(nDelete)\<close>, reshaped to \<open>[nDelete]\<close>. The tuple of
  \<open>np.where\<close> is an array of shape \<open>(1, k)\<close>; it is broadcast against the \<open>nDelete\<close>
  entries of the range when \<open>k = nDelete\<close> or \<open>k = 1\<close>, and the subtraction or the
  reshape fails otherwise.
\<close>

definition insert_targets :: "ledger_index \<Rightarrow> nat \<Rightarrow> py_error + int list" where
  "insert_targets idel ndel =
     (case idel of
        Scalar s \<Rightarrow> Inr (map (\<lambda>j. s - int j) [0..<ndel])
      | Indices D \<Rightarrow>
          if length D = ndel then Inr (map (\<lambda>j. int (D ! j) - int j) [0..<ndel])
          else if length D = 1 then Inr (map (\<lambda>j. int (D ! 0) - int j) [0..<ndel])
          else Inl ValueError)"

text \<open>
  \<open>new[indices] = values; new[old_mask] = arr\<close> of \<open>np.insert\<close>: going through the
  positions of the new array, a marked position takes the inserted value and any other
  one the next entry of the old array.
\<close>

fun place :: "nat list \<Rightarrow> nat list \<Rightarrow> 'a list \<Rightarrow> 'a \<Rightarrow> 'a list" where
  "place [] P xs v = []"
| "place (p # ps) P xs v =
     (if p \<in> set P then v # place ps P xs v
      else (case xs of [] \<Rightarrow> [] | x # xs' \<Rightarrow> x # place ps P xs' v))"

text \<open>
  \<open>np.insert(row, idx, v)\<close> for a one-dimensional index array and a scalar \<open>v\<close>. A single
  index must lie in \<open>[-N, N]\<close>. Otherwise negative indices are shifted by \<open>N\<close>, the
  indices are sorted, the \<open>j\<close>-th one is moved right by \<open>j\<close>, and these are positions of
  the new array of \<open>N + k\<close> entries (a position still negative counts from its end).
\<close>

definition np_insert :: "'a list \<Rightarrow> int list \<Rightarrow> 'a \<Rightarrow> py_error + 'a list" where
  "np_insert row idx v =
     (let N = int (length row); k = length idx in
      if k = 1 \<and> (hd idx < - N \<or> hd idx > N) then Inl IndexError
      else
        (let shifted = sort (map (\<lambda>i. if i < 0 then i + N else i) idx);
             moved = map (\<lambda>j. shifted ! j + int j) [0..<k];
             M = N + int k
         in if list_ex (\<lambda>p. p < - M \<or> p \<ge> M) moved then Inl IndexError
            else
              (let P = map (\<lambda>p. nat (if p < 0 then p + M else p)) moved
               in if \<not> distinct P then Inl ValueError
                  else Inr (place [0..<length row + k] P row v))))"

text \<open>The insertion along axis 1: every row of the matrix, the first error wins.\<close>

fun np_insert_rows :: "'a list list \<Rightarrow> int list \<Rightarrow> 'a \<Rightarrow> py_error + 'a list list" where
  "np_insert_rows [] idx v = Inr []"
| "np_insert_rows (row # rows) idx v =
     (case np_insert row idx v of
        Inl e \<Rightarrow> Inl e
      | Inr row' \<Rightarrow>
          (case np_insert_rows rows idx v of
             Inl e \<Rightarrow> Inl e
           | Inr rows' \<Rightarrow> Inr (row' # rows')))"

text \<open>What step 1 of \<open>write_output\<close> does to one per-time-step row.\<close>

definition assemble :: "real list \<Rightarrow> ledger_index \<Rightarrow> nat \<Rightarrow> py_error + real list" where
  "assemble F idel ndel =
     (case insert_targets idel ndel of
        Inl e \<Rightarrow> Inl e
      | Inr idx \<Rightarrow> np_insert F idx fillvalue)"

record estimate =
  AllQ :: "real list list"
  QhatUnc_HatAllAll :: "real list list"
  QhatAllPrior :: "real list list"

text \<open>Step 1 of \<open>write_output\<close> on the estimate, by \<open>SetQuality\<close>.\<close>

definition add_placeholders :: "estimate \<Rightarrow> ledger_index \<Rightarrow> nat \<Rightarrow> nat \<Rightarrow> py_error + estimate" where
  "add_placeholders est idel ndel q =
     (case insert_targets idel ndel of
        Inl e \<Rightarrow> Inl e
      | Inr idx \<Rightarrow>
          if q = 0 then
            (case np_insert_rows (AllQ est) idx fillvalue of
               Inl e \<Rightarrow> Inl e
             | Inr a \<Rightarrow>
                 (case np_insert_rows (QhatUnc_HatAllAll est) idx fillvalue of
                    Inl e \<Rightarrow> Inl e
                  | Inr u \<Rightarrow> Inr (est\<lparr>AllQ := a, QhatUnc_HatAllAll := u\<rparr>)))
          else if q = 1 then
            (case np_insert_rows (QhatAllPrior est) idx fillvalue of
               Inl e \<Rightarrow> Inl e
             | Inr a \<Rightarrow> Inr (est\<lparr>QhatAllPrior := a\<rparr>))
          else Inr est)"

subsection \<open>The scatter the assembler is compared with\<close>

text \<open>
  As the specification words it: the filtered values go to the positions outside \<open>D\<close>
  of a zero-initialised array of full length, in order, and the sentinel is written at
  every index of \<open>D\<close>.
\<close>

definition complement :: "nat \<Rightarrow> nat list \<Rightarrow> nat list" where
  "complement n D = filter (\<lambda>p. p \<notin> set D) [0..<n]"

definition scatter :: "real list \<Rightarrow> nat list \<Rightarrow> nat \<Rightarrow> real \<Rightarrow> real list" where
  "scatter F D n v =
     fold (\<lambda>d a. a[d := v]) D
       (fold (\<lambda>(p, x) a. a[p := x]) (zip (complement n D) F) (replicate n 0))"

section \<open>Auxiliary notions for the proofs\<close>

text \<open>
  Whether position \<open>ii\<close> of a raw sequence is selected, and the invariant that every
  stored mask has the length of the raw sequence stored under the same identifier.
\<close>

definition selected :: "instant list \<Rightarrow> int list \<Rightarrow> nat \<Rightarrow> bool" where
  "selected ts ots ii = (in_overlap (ts ! ii) ots \<and> \<not> in_prefix (ts ! ii) (take ii ts))"

definition fs_ok :: "(nat \<rightharpoonup> instant list) \<Rightarrow> (nat \<rightharpoonup> bool list) \<Rightarrow> bool" where
  "fs_ok a fs = (\<forall>k m. fs k = Some m \<longrightarrow> (\<exists>ts. a k = Some ts \<and> length m = length ts))"

text \<open>
  The candidate instants of a reach (none without a file), and the count and the set of
  aligned instants that time alignment returns.
\<close>

definition reach_instants :: "reach \<Rightarrow> int list" where
  "reach_instants r = (case swot r of None \<Rightarrow> [] | Some f \<Rightarrow> not_nan (swot_time f))"

definition aligned_nt :: "reach list \<Rightarrow> nat option" where
  "aligned_nt rs = (case time_alignment rs of Inl e \<Rightarrow> None | Inr al \<Rightarrow> Some (al_nt al))"

definition aligned_instants :: "reach list \<Rightarrow> int set option" where
  "aligned_instants rs =
     (case time_alignment rs of Inl e \<Rightarrow> None | Inr al \<Rightarrow> Some (set (al_overlap_ts al)))"

text \<open>The rows of the three matrices of an observation set.\<close>

definition all_rows :: "observations \<Rightarrow> reading list set" where
  "all_rows ob = set (AllObs_h ob) \<union> set (AllObs_w ob) \<union> set (AllObs_S ob)"

text \<open>
  A history of \<open>SetQuality\<close> that never improves: the values are tiers, each at least as
  bad as the one before, the first is the initial tier and the last is the current value.
\<close>

definition trace_ok :: "nat \<Rightarrow> nat list \<Rightarrow> nat \<Rightarrow> bool" where
  "trace_ok q0 tr q =
     (tr \<noteq> [] \<and> hd tr = q0 \<and> sorted tr \<and> last tr = q \<and> set tr \<subseteq> {0, 1, 2})"

section \<open>Example inputs\<close>

text \<open>
  A reach with a file of the given instants whose readings are all defined, and one
  with explicit rows; both with a defined prior unless stated.
\<close>

definition plain_reach :: "nat \<Rightarrow> instant list \<Rightarrow> reach" where
  "plain_reach i ts =
     \<lparr>reach_id = i, swot = Some (map (\<lambda>t. (t, Some 1, Some 2, Some 3)) ts),
      sos_mean_q = Some 9, sword_reach_length = 1, sword_dist_out = 2\<rparr>"

definition rows_reach :: "nat \<Rightarrow> swot_file \<Rightarrow> reading \<Rightarrow> reach" where
  "rows_reach i f q =
     \<lparr>reach_id = i, swot = Some f, sos_mean_q = q, sword_reach_length = 1, sword_dist_out = 2\<rparr>"

lemmas swot_simps = swot_time_def swot_wse_def swot_width_def swot_slope2_def

lemmas alignment_simps = time_alignment_def swot_simps fix_reach_def fix_step_def plain_reach_def
  rows_reach_def

section \<open>Properties of the quality checkpoints\<close>

text \<open>
  C9. Both thresholds are 4, so at the checkpoint after the filter the branch that
  assigns Degraded is never taken: a count below \<open>ntmin\<close> is below \<open>ntmin_prior\<close>
  too and the tier becomes Invalid (2). For thresholds that do let the branch run, it
  writes Degraded (1) over a tier that is already Invalid.
\<close>

theorem post_filter_never_degraded:
  "post_filter_branch ntmin ntmin_prior n \<noteq> PostDegraded
   \<and> (n < ntmin \<longrightarrow> n < ntmin_prior \<and> post_filter_quality ntmin ntmin_prior n q = 2)
   \<and> (post_filter_branch m mp n = PostDegraded \<longrightarrow> post_filter_quality m mp n 2 = 1)"
  by (simp add: post_filter_branch_def post_filter_quality_def ntmin_def ntmin_prior_def)

theorem post_filter_never_degraded_witness:
  "post_filter_branch ntmin ntmin_prior 3 \<noteq> PostDegraded
   \<and> (3::nat) < ntmin \<and> (3::nat) < ntmin_prior \<and> post_filter_quality ntmin ntmin_prior 3 1 = 2
   \<and> post_filter_branch 5 4 4 = PostDegraded \<and> post_filter_quality 5 4 4 2 = 1"
  using post_filter_never_degraded [of 3 1 5 4] post_filter_never_degraded [of 4 0 5 4]
  by (simp add: post_filter_branch_def ntmin_def ntmin_prior_def)

text \<open>
  C7. When the aligned count is below \<open>ntmin_prior\<close> and every aligned instant is an
  hour that line 180 can turn into a datetime (years 1 to 9999), \<open>retrieve_obs\<close>
  returns at the first checkpoint: the tier is Invalid (2), the ledger is the integer 0
  with count 0, and the log of channel, prior and reference reads is empty.
\<close>

theorem pre_filter_short_circuit:
  assumes "time_alignment rs = Inr al" and "al_nt al < ntmin_prior" and "rs \<noteq> []"
    and "\<forall>t\<in>set (al_overlap_ts al). - 17522856 \<le> t \<and> t \<le> 70126559"
  shows "\<exists>res. retrieve_obs rs = Inr res \<and> SetQuality res = 2 \<and> iDelete res = Scalar 0
               \<and> nDelete res = 0 \<and> reads res = [] \<and> Qbar res = []
               \<and> DAll_nt (DAll res) = al_nt al"
proof -
  have "tall (al_overlap_ts al) = Inr (al_overlap_ts al)"
    using assms(4) by (simp add: tall_def datetime_ok_def list_all_iff)
  then show ?thesis
    using assms(1-3)
    by (cases rs) (simp_all add: retrieve_obs_def Let_def initial_domain_def initial_state_def)
qed

theorem pre_filter_short_circuit_witness:
  "\<exists>res. retrieve_obs [plain_reach 7 [Some 5, Some 6, Some 7]] = Inr res
         \<and> SetQuality res = 2 \<and> iDelete res = Scalar 0 \<and> nDelete res = 0
         \<and> reads res = [] \<and> Qbar res = [] \<and> DAll_nt (DAll res) = 3"
proof -
  obtain al where al: "time_alignment [plain_reach 7 [Some 5, Some 6, Some 7]] = Inr al"
    and n: "al_nt al = 3" and ts: "al_overlap_ts al = [5, 6, 7]"
    by (simp add: alignment_simps)
  have "al_nt al < ntmin_prior"
    using n by (simp add: ntmin_prior_def)
  from pre_filter_short_circuit [OF al this] n ts show ?thesis
    by simp
qed

section \<open>Missing source file\<close>

text \<open>
  C5. A reach list of one reach whose SWOT file is absent: the first loop stores no
  entry for it, and \<open>allts[reach['reach_id']]\<close> of line 132 raises KeyError.
\<close>

theorem missing_file_raises:
  "retrieve_obs [r\<lparr>swot := None\<rparr>] = Inl KeyError"
  by (simp add: retrieve_obs_def time_alignment_def)

section \<open>The selection mask\<close>

lemma fix_step_length: "length (fix_step ts ots ii fs) = length fs"
  by (simp add: fix_step_def Let_def)

lemma fix_step_nth:
  "j < length fs \<Longrightarrow> fix_step ts ots ii fs ! j = (if j = ii then selected ts ots ii else fs ! j)"
  by (simp add: fix_step_def Let_def selected_def nth_list_update)

lemma fix_fold_length: "length (fold (fix_step ts ots) is fs) = length fs"
  by (induction "is" arbitrary: fs) (simp_all add: fix_step_length)

lemma fix_fold_nth:
  "j < length fs \<Longrightarrow>
   fold (fix_step ts ots) [0..<k] fs ! j = (if j < k then selected ts ots j else fs ! j)"
proof (induction k)
  case 0
  then show ?case by simp
next
  case (Suc k)
  have "fold (fix_step ts ots) [0..<Suc k] fs = fix_step ts ots k (fold (fix_step ts ots) [0..<k] fs)"
    by simp
  with Suc show ?case
    by (simp add: fix_step_nth fix_fold_length less_Suc_eq)
qed

lemma fix_reach_eq:
  assumes "length fs = length ts"
  shows "fix_reach ts ots fs = map (selected ts ots) [0..<length ts]"
proof (rule nth_equalityI)
  show "length (fix_reach ts ots fs) = length (map (selected ts ots) [0..<length ts])"
    using assms by (simp add: fix_reach_def fix_fold_length)
next
  fix i assume "i < length (fix_reach ts ots fs)"
  then have "i < length ts" using assms by (simp add: fix_reach_def fix_fold_length)
  then show "fix_reach ts ots fs ! i = map (selected ts ots) [0..<length ts] ! i"
    using assms by (simp add: fix_reach_def fix_fold_nth)
qed

lemma overlap_loop_ok:
  "overlap_loop i rs a (ots, fs) = Inr (ots', fs') \<Longrightarrow> fs_ok a fs \<Longrightarrow>
   fs_ok a fs' \<and> (\<forall>r\<in>set rs. fs' (reach_id r) \<noteq> None)
   \<and> (\<forall>k. fs k \<noteq> None \<longrightarrow> fs' k \<noteq> None)"
proof (induction rs arbitrary: i ots fs)
  case Nil
  then show ?case by simp
next
  case (Cons r rs)
  from Cons.prems(1) obtain ts where ts: "a (reach_id r) = Some ts"
    by (auto split: option.splits)
  define ots1 where "ots1 = (if i = 0 then not_nan ts else remdups (filter (\<lambda>t. t \<in> set (not_nan ts)) ots))"
  define fs1 where "fs1 = (if i = 0 then fs(reach_id r \<mapsto> replicate (length ts) True)
        else fs(reach_id r \<mapsto> map (\<lambda>t. in_overlap t ots1) ts))"
  have step: "overlap_loop (Suc i) rs a (ots1, fs1) = Inr (ots', fs')"
    using Cons.prems(1) ts by (simp add: ots1_def fs1_def Let_def split: if_splits)
  have ok1: "fs_ok a fs1"
    using Cons.prems(2) ts by (auto simp: fs_ok_def fs1_def)
  have dom1: "fs1 (reach_id r) \<noteq> None" "\<And>k. fs k \<noteq> None \<Longrightarrow> fs1 k \<noteq> None"
    by (auto simp: fs1_def)
  from Cons.IH [OF step ok1] dom1 show ?case by auto
qed

lemma fix_loop_result:
  "fix_loop rs a ots fs = Inr fs' \<Longrightarrow> fs_ok a fs \<Longrightarrow>
   (\<forall>r\<in>set rs. \<exists>ts. a (reach_id r) = Some ts \<and> fs' (reach_id r) = Some (map (selected ts ots) [0..<length ts]))
   \<and> (\<forall>k. k \<notin> reach_id ` set rs \<longrightarrow> fs' k = fs k)"
proof (induction rs arbitrary: fs)
  case Nil
  then show ?case by simp
next
  case (Cons r rs)
  from Cons.prems(1) obtain ts m where ts: "a (reach_id r) = Some ts" and m: "fs (reach_id r) = Some m"
    by (auto split: option.splits)
  have len: "length m = length ts" using Cons.prems(2) ts m unfolding fs_ok_def by fastforce
  define fs1 where "fs1 = fs(reach_id r \<mapsto> fix_reach ts ots m)"
  have fr: "fix_reach ts ots m = map (selected ts ots) [0..<length ts]"
    using len by (rule fix_reach_eq)
  have step: "fix_loop rs a ots fs1 = Inr fs'"
    using Cons.prems(1) ts m by (simp add: fs1_def)
  have ok1: "fs_ok a fs1"
    using Cons.prems(2) ts by (auto simp: fs_ok_def fs1_def fr)
  note IH = Cons.IH [OF step ok1]
  have here: "fs' (reach_id r) = Some (map (selected ts ots) [0..<length ts])"
  proof (cases "reach_id r \<in> reach_id ` set rs")
    case True
    then obtain r' where "r' \<in> set rs" "reach_id r' = reach_id r" by auto
    with IH ts show ?thesis by fastforce
  next
    case False
    with IH have "fs' (reach_id r) = fs1 (reach_id r)" by blast
    then show ?thesis by (simp add: fs1_def fr)
  qed
  show ?case
    using IH here ts by (auto simp: fs1_def)
qed

lemma extract_allts_other:
  "k \<notin> reach_id ` set rs \<Longrightarrow> extract_allts rs a k = a k"
  by (induction rs arbitrary: a) (auto split: option.splits)

lemma extract_allts_distinct:
  "distinct (map reach_id rs) \<Longrightarrow> r \<in> set rs \<Longrightarrow>
   extract_allts rs a (reach_id r) =
     (case swot r of Some f \<Rightarrow> Some (swot_time f) | None \<Rightarrow> a (reach_id r))"
proof (induction rs arbitrary: a)
  case Nil
  then show ?case by simp
next
  case (Cons x rs)
  show ?case
  proof (cases "r = x")
    case True
    with Cons.prems have "reach_id r \<notin> reach_id ` set rs" by auto
    then show ?thesis using True
      by (simp add: extract_allts_other split: option.splits)
  next
    case False
    with Cons.prems have r: "r \<in> set rs" and d: "distinct (map reach_id rs)"
      and ne: "reach_id x \<noteq> reach_id r" by auto
    show ?thesis
      using Cons.IH [OF d r] ne by (simp split: option.splits)
  qed
qed

lemma selected_iff:
  "selected ts ots ii \<longleftrightarrow> (\<exists>v. ts ! ii = Some v \<and> v \<in> set ots \<and> Some v \<notin> set (take ii ts))"
  by (cases "ts ! ii") (simp_all add: selected_def)

lemma fs_ok_empty: "fs_ok a Map.empty"
  by (simp add: fs_ok_def)

text \<open>
  C3. For every reach of an aligned set, the mask stored for it has the length of its raw
  instant sequence, and position \<open>ii\<close> is selected exactly when the instant there is
  defined, belongs to the overlap set, and does not occur earlier in the raw sequence.
  With distinct identifiers the raw sequence is that of the reach's own file.
\<close>

theorem selection_mask_first_occurrence:
  assumes "time_alignment rs = Inr al" and "r \<in> set rs"
  shows "\<exists>ts m. al_allts al (reach_id r) = Some ts \<and> al_overlap_fs al (reach_id r) = Some m
     \<and> length m = length ts
     \<and> (\<forall>ii<length ts. m ! ii \<longleftrightarrow>
          (\<exists>v. ts ! ii = Some v \<and> v \<in> set (al_overlap_ts al) \<and> Some v \<notin> set (take ii ts)))
     \<and> (distinct (map reach_id rs) \<longrightarrow> (\<exists>f. swot r = Some f \<and> ts = swot_time f))"
proof -
  define a where "a = extract_allts rs Map.empty"
  from assms(1) obtain ots fs fs' where
    ol: "overlap_loop 0 rs a ([], Map.empty) = Inr (ots, fs)" and
    fl: "fix_loop rs a ots fs = Inr fs'" and
    al: "al = \<lparr>al_allts = a, al_overlap_ts = sort ots, al_overlap_fs = fs', al_nt = length (sort ots)\<rparr>"
    by (auto simp: time_alignment_def a_def Let_def split: sum.splits prod.splits)
  have ok: "fs_ok a fs"
    using overlap_loop_ok [OF ol fs_ok_empty] by simp
  from fix_loop_result [OF fl ok] assms(2) obtain ts where
    ts: "a (reach_id r) = Some ts" and
    m: "fs' (reach_id r) = Some (map (selected ts ots) [0..<length ts])"
    by blast
  have d: "distinct (map reach_id rs) \<longrightarrow> (\<exists>f. swot r = Some f \<and> ts = swot_time f)"
  proof
    assume "distinct (map reach_id rs)"
    from extract_allts_distinct [OF this assms(2), of Map.empty] ts
    show "\<exists>f. swot r = Some f \<and> ts = swot_time f"
      by (auto simp: a_def split: option.splits)
  qed
  show ?thesis
    using ts m d by (simp add: al selected_iff)
qed

theorem selection_mask_first_occurrence_witness:
  "\<exists>al m. time_alignment [plain_reach 1 [Some 5, Some 5, Some 7]] = Inr al
       \<and> set (al_overlap_ts al) = {5, 7}
       \<and> al_overlap_fs al 1 = Some m \<and> length m = 3 \<and> m ! 0 \<and> \<not> m ! 1 \<and> m ! 2"
proof -
  let ?r = "plain_reach 1 [Some 5, Some 5, Some 7]"
  obtain al where al: "time_alignment [?r] = Inr al" and o: "al_overlap_ts al = [5, 5, 7]"
    by (simp add: alignment_simps)
  have r: "?r \<in> set [?r]" by simp
  from selection_mask_first_occurrence [OF al r] obtain ts m where
    m: "al_overlap_fs al (reach_id ?r) = Some m"
    and len: "length m = length ts"
    and sel: "\<forall>ii<length ts. m ! ii \<longleftrightarrow>
          (\<exists>v. ts ! ii = Some v \<and> v \<in> set (al_overlap_ts al) \<and> Some v \<notin> set (take ii ts))"
    and f: "distinct (map reach_id [?r]) \<longrightarrow> (\<exists>f. swot ?r = Some f \<and> ts = swot_time f)"
    by blast
  from f have t: "ts = [Some 5, Some 5, Some 7]"
    by (simp add: plain_reach_def swot_time_def)
  have "m ! 0" using sel [rule_format, of 0] o by (simp add: t)
  moreover have "\<not> m ! 1" using sel [rule_format, of 1] o by (simp add: t)
  moreover have "m ! 2" using sel [rule_format, of 2] o by (simp add: t)
  ultimately show ?thesis
    using al o m len by (auto simp: t plain_reach_def)
qed

section \<open>The aligned instants\<close>

lemma overlap_loop_total:
  "\<forall>r\<in>set rs. a (reach_id r) \<noteq> None \<Longrightarrow> \<exists>res. overlap_loop i rs a st = Inr res"
proof (induction rs arbitrary: i st)
  case Nil
  then show ?case by simp
next
  case (Cons r rs)
  obtain ots fs where st: "st = (ots, fs)" by (cases st)
  from Cons.prems obtain ts where ts: "a (reach_id r) = Some ts" by auto
  from Cons.prems have rest: "\<forall>r\<in>set rs. a (reach_id r) \<noteq> None" by simp
  show ?case
    using Cons.IH [OF rest] by (simp add: st ts Let_def)
qed

lemma fix_loop_total:
  "\<forall>r\<in>set rs. a (reach_id r) \<noteq> None \<and> fs (reach_id r) \<noteq> None \<Longrightarrow>
   \<exists>fs'. fix_loop rs a ots fs = Inr fs'"
proof (induction rs arbitrary: fs)
  case Nil
  then show ?case by simp
next
  case (Cons r rs)
  from Cons.prems obtain ts m where ts: "a (reach_id r) = Some ts" and m: "fs (reach_id r) = Some m"
    by auto
  define fs1 where "fs1 = fs(reach_id r \<mapsto> fix_reach ts ots m)"
  have "\<forall>x\<in>set rs. a (reach_id x) \<noteq> None \<and> fs1 (reach_id x) \<noteq> None"
    using Cons.prems by (auto simp: fs1_def)
  from Cons.IH [OF this] obtain fs' where "fix_loop rs a ots fs1 = Inr fs'" by blast
  then show ?case by (simp add: ts m fs1_def)
qed

lemma overlap_loop_later:
  "overlap_loop i rs a (ots, fs) = Inr (ots', fs') \<Longrightarrow> 0 < i \<Longrightarrow>
   set ots' = set ots \<inter> (\<Inter>r\<in>set rs. set (not_nan (the (a (reach_id r)))))
   \<and> (distinct ots \<longrightarrow> distinct ots') \<and> (rs \<noteq> [] \<longrightarrow> distinct ots')"
proof (induction rs arbitrary: i ots fs)
  case Nil
  then show ?case by simp
next
  case (Cons r rs)
  from Cons.prems(1) obtain ts where ts: "a (reach_id r) = Some ts"
    by (auto split: option.splits)
  define ots1 where "ots1 = remdups (filter (\<lambda>t. t \<in> set (not_nan ts)) ots)"
  define fs1 where "fs1 = fs(reach_id r \<mapsto> map (\<lambda>t. in_overlap t ots1) ts)"
  have step: "overlap_loop (Suc i) rs a (ots1, fs1) = Inr (ots', fs')"
    using Cons.prems ts by (simp add: ots1_def fs1_def Let_def)
  have s1: "set ots1 = set ots \<inter> set (not_nan ts)" and d1: "distinct ots1"
    by (auto simp: ots1_def)
  from Cons.IH [OF step] have
    "set ots' = set ots1 \<inter> (\<Inter>r\<in>set rs. set (not_nan (the (a (reach_id r)))))"
    and "distinct ots'"
    using d1 by simp_all
  then show ?case using s1 ts by auto
qed

lemma overlap_loop_first:
  assumes "overlap_loop 0 (r # rs) a (ots, fs) = Inr (ots', fs')"
  shows "set ots' = (\<Inter>x\<in>set (r # rs). set (not_nan (the (a (reach_id x)))))
   \<and> (rs \<noteq> [] \<or> distinct (not_nan (the (a (reach_id r)))) \<longrightarrow> distinct ots')"
proof -
  from assms obtain ts where ts: "a (reach_id r) = Some ts"
    by (auto split: option.splits)
  have step: "overlap_loop (Suc 0) rs a (not_nan ts, fs(reach_id r \<mapsto> replicate (length ts) True)) = Inr (ots', fs')"
    using assms ts by simp
  from overlap_loop_later [OF step] show ?thesis
    using ts by auto
qed

lemma alignment_total_set:
  assumes files: "\<forall>r\<in>set rs. swot r \<noteq> None" and ids: "distinct (map reach_id rs)"
    and ne: "rs \<noteq> []"
  shows "\<exists>al. time_alignment rs = Inr al
     \<and> set (al_overlap_ts al) = (\<Inter>r\<in>set rs. set (reach_instants r))
     \<and> al_nt al = length (al_overlap_ts al) \<and> sorted (al_overlap_ts al)
     \<and> (2 \<le> length rs \<or> distinct (reach_instants (hd rs)) \<longrightarrow> distinct (al_overlap_ts al))"
proof -
  define a where "a = extract_allts rs Map.empty"
  have a: "a (reach_id r) = Some (swot_time (the (swot r)))" if "r \<in> set rs" for r
    using extract_allts_distinct [OF ids that, of Map.empty] files that
    by (auto simp: a_def split: option.splits)
  have inst: "not_nan (the (a (reach_id r))) = reach_instants r" if "r \<in> set rs" for r
    using a [OF that] files that by (auto simp: reach_instants_def split: option.splits)
  have "\<forall>r\<in>set rs. a (reach_id r) \<noteq> None" using a by simp
  from overlap_loop_total [OF this] obtain ots fs where
    ol: "overlap_loop 0 rs a ([], Map.empty) = Inr (ots, fs)" by (metis surj_pair)
  have ok: "fs_ok a fs" and dom: "\<forall>r\<in>set rs. fs (reach_id r) \<noteq> None"
    using overlap_loop_ok [OF ol fs_ok_empty] by simp_all
  have "\<forall>r\<in>set rs. a (reach_id r) \<noteq> None \<and> fs (reach_id r) \<noteq> None"
    using a dom by simp
  from fix_loop_total [OF this] obtain fs' where fl: "fix_loop rs a ots fs = Inr fs'" by blast
  have al: "time_alignment rs = Inr \<lparr>al_allts = a, al_overlap_ts = sort ots, al_overlap_fs = fs',
                    al_nt = length (sort ots)\<rparr>"
    using ol fl by (simp add: time_alignment_def a_def [symmetric])
  from ne obtain r rest where rs: "rs = r # rest" by (cases rs) auto
  from overlap_loop_first [OF ol [unfolded rs]] have
    s: "set ots = (\<Inter>x\<in>set rs. set (not_nan (the (a (reach_id x)))))" and
    d: "rest \<noteq> [] \<or> distinct (not_nan (the (a (reach_id r)))) \<longrightarrow> distinct ots"
    by (simp_all add: rs)
  have s': "set ots = (\<Inter>r\<in>set rs. set (reach_instants r))"
    using s inst by simp
  have d': "2 \<le> length rs \<or> distinct (reach_instants (hd rs)) \<longrightarrow> distinct ots"
  proof
    assume h: "2 \<le> length rs \<or> distinct (reach_instants (hd rs))"
    have "rest \<noteq> [] \<or> distinct (not_nan (the (a (reach_id r))))"
      using h inst [of r] by (cases rest) (auto simp: rs)
    with d show "distinct ots" by blast
  qed
  show ?thesis
    using al s' d' by simp
qed

lemma remove_reach_ok:
  assumes "i < length rs" and "2 \<le> length rs" and "distinct (map reach_id rs)"
  shows "take i rs @ drop (Suc i) rs \<noteq> [] \<and> set (take i rs @ drop (Suc i) rs) \<subseteq> set rs
     \<and> distinct (map reach_id (take i rs @ drop (Suc i) rs))"
proof -
  have rs: "rs = take i rs @ rs ! i # drop (Suc i) rs"
    using assms(1) by (rule id_take_nth_drop)
  have "length (take i rs @ drop (Suc i) rs) = length rs - 1"
    using assms(1) by simp
  then have ne: "take i rs @ drop (Suc i) rs \<noteq> []"
    using assms(2) by (auto simp del: length_0_conv simp: length_0_conv [symmetric])
  have sub: "set (take i rs @ drop (Suc i) rs) \<subseteq> set rs"
    using set_take_subset [of i rs] set_drop_subset [of "Suc i" rs] by auto
  have "distinct (map reach_id (take i rs @ rs ! i # drop (Suc i) rs))"
    using assms(3) rs by simp
  then have "distinct (map reach_id (take i rs @ drop (Suc i) rs))"
    by simp
  with ne sub show ?thesis by blast
qed

text \<open>
  C2, as amended. For a reach list with every file present and distinct identifiers,
  holding at least two reaches or a single reach whose valid instants are distinct, the
  count \<open>nt\<close> is the size of the intersection of the per-reach sets of valid instants,
  and the returned instants are that intersection. Removing one reach (at least one is
  left) can only enlarge or preserve the intersection and the count.
\<close>

theorem aligned_count_is_intersection_size:
  assumes files: "\<forall>r\<in>set rs. swot r \<noteq> None" and ids: "distinct (map reach_id rs)"
    and ne: "rs \<noteq> []"
    and dd: "2 \<le> length rs \<or> distinct (reach_instants (hd rs))"
  shows "aligned_nt rs = Some (card (\<Inter>r\<in>set rs. set (reach_instants r)))
     \<and> aligned_instants rs = Some (\<Inter>r\<in>set rs. set (reach_instants r))
     \<and> (\<forall>i<length rs. 2 \<le> length rs \<longrightarrow>
          (\<exists>n' I'. aligned_nt (take i rs @ drop (Suc i) rs) = Some n'
             \<and> aligned_instants (take i rs @ drop (Suc i) rs) = Some I'
             \<and> (\<Inter>r\<in>set rs. set (reach_instants r)) \<subseteq> I'
             \<and> card (\<Inter>r\<in>set rs. set (reach_instants r)) \<le> n'))"
proof -
  let ?I = "\<Inter>r\<in>set rs. set (reach_instants r)"
  from alignment_total_set [OF files ids ne] dd obtain al where
    al: "time_alignment rs = Inr al" and s: "set (al_overlap_ts al) = ?I"
    and n: "al_nt al = length (al_overlap_ts al)" and d: "distinct (al_overlap_ts al)"
    by blast
  have cnt: "al_nt al = card ?I"
    using n d s distinct_card [of "al_overlap_ts al"] by simp
  have rem: "\<exists>n' I'. aligned_nt (take i rs @ drop (Suc i) rs) = Some n'
             \<and> aligned_instants (take i rs @ drop (Suc i) rs) = Some I'
             \<and> ?I \<subseteq> I' \<and> card ?I \<le> n'"
    if i: "i < length rs" and two: "2 \<le> length rs" for i
  proof -
    let ?rs' = "take i rs @ drop (Suc i) rs"
    from remove_reach_ok [OF i two ids] have ne': "?rs' \<noteq> []" and sub: "set ?rs' \<subseteq> set rs"
      and ids': "distinct (map reach_id ?rs')" by simp_all
    have files': "\<forall>r\<in>set ?rs'. swot r \<noteq> None"
      using files sub by blast
    from alignment_total_set [OF files' ids' ne'] obtain al' where
      al': "time_alignment ?rs' = Inr al'"
      and s': "set (al_overlap_ts al') = (\<Inter>r\<in>set ?rs'. set (reach_instants r))"
      and n': "al_nt al' = length (al_overlap_ts al')"
      by blast
    have incl: "?I \<subseteq> set (al_overlap_ts al')"
      unfolding s' using sub by blast
    have "card ?I \<le> card (set (al_overlap_ts al'))"
      using incl by (simp add: card_mono)
    also have "\<dots> \<le> al_nt al'"
      unfolding n' by (rule card_length)
    finally have "card ?I \<le> al_nt al'" .
    with al' incl show ?thesis
      by (simp add: aligned_nt_def aligned_instants_def)
  qed
  show ?thesis
    using al s cnt rem by (simp add: aligned_nt_def aligned_instants_def)
qed

theorem aligned_count_is_intersection_size_witness:
  "aligned_nt [plain_reach 1 [Some 1, Some 2, None], plain_reach 2 [Some 1, Some 1]] = Some 1
   \<and> aligned_instants [plain_reach 1 [Some 1, Some 2, None], plain_reach 2 [Some 1, Some 1]] = Some {1}"
proof -
  let ?rs = "[plain_reach 1 [Some 1, Some 2, None], plain_reach 2 [Some 1, Some 1]]"
  have files: "\<forall>r\<in>set ?rs. swot r \<noteq> None" by (simp add: plain_reach_def)
  have ids: "distinct (map reach_id ?rs)" by (simp add: plain_reach_def)
  have ne: "?rs \<noteq> []" by simp
  have dd: "2 \<le> length ?rs \<or> distinct (reach_instants (hd ?rs))" by simp
  have I: "(\<Inter>r\<in>set ?rs. set (reach_instants r)) = {1}"
    by (auto simp: reach_instants_def plain_reach_def swot_time_def)
  from aligned_count_is_intersection_size [OF files ids ne dd] show ?thesis
    unfolding I by simp
qed

text \<open>
  The claim as stated fails twice. A single reach with raw instants 5, 5, 7 has two
  distinct valid instants and \<open>nt = 3\<close>: the first reach's list is taken as it is.
  Removing the second reach of a set makes the count grow from 1 to 2.
\<close>

theorem aligned_count_counterexample:
  "aligned_nt [plain_reach 1 [Some 5, Some 5, Some 7]] = Some 3
   \<and> card (set (reach_instants (plain_reach 1 [Some 5, Some 5, Some 7]))) = 2
   \<and> aligned_nt [plain_reach 1 [Some 1, Some 2], plain_reach 2 [Some 1]] = Some 1
   \<and> aligned_nt [plain_reach 1 [Some 1, Some 2]] = Some 2"
proof -
  have a: "aligned_nt [plain_reach 1 [Some 5, Some 5, Some 7]] = Some 3"
    by (simp add: aligned_nt_def alignment_simps)
  have b: "card (set (reach_instants (plain_reach 1 [Some 5, Some 5, Some 7]))) = 2"
    by (simp add: reach_instants_def plain_reach_def swot_time_def)
  have c: "aligned_nt [plain_reach 1 [Some 1, Some 2], plain_reach 2 [Some 1]] = Some 1"
    by (simp add: aligned_nt_def alignment_simps)
  have d: "aligned_nt [plain_reach 1 [Some 1, Some 2]] = Some 2"
    by (simp add: aligned_nt_def alignment_simps)
  from a b c d show ?thesis by blast
qed

section \<open>The validity filter\<close>

lemma any_isnan_nth:
  "j < n \<Longrightarrow> any_isnan M n ! j \<longleftrightarrow> (\<exists>row\<in>set M. row ! j = None)"
  by (simp add: any_isnan_def list_ex_iff)

lemma bad_columns_iff:
  "j \<in> set (bad_columns ob n) \<longleftrightarrow> j < n \<and> (\<exists>row\<in>all_rows ob. row ! j = None)"
proof (cases "j < n")
  case True
  then show ?thesis
    unfolding bad_columns_def all_rows_def by (simp add: any_isnan_nth) blast
next
  case False
  then show ?thesis by (simp add: bad_columns_def)
qed

lemma bad_columns_ascending: "sorted_wrt (<) (bad_columns ob n)"
  unfolding bad_columns_def by (rule sorted_wrt_filter) (rule sorted_wrt_upt)

lemma bad_columns_refilter:
  "filter (\<lambda>i. i \<in> set (bad_columns ob n)) [0..<n] = bad_columns ob n"
proof -
  have "filter (\<lambda>i. i \<in> set (bad_columns ob n)) [0..<n]
        = filter (\<lambda>j. any_isnan (AllObs_h ob) n ! j \<or> any_isnan (AllObs_w ob) n ! j
                 \<or> any_isnan (AllObs_S ob) n ! j) [0..<n]"
    by (rule filter_cong) (auto simp: bad_columns_def)
  then show ?thesis by (simp add: bad_columns_def)
qed

lemma np_delete_length:
  assumes "length xs = n"
  shows "length (np_delete xs (bad_columns ob n)) + length (bad_columns ob n) = n"
proof -
  have "length (filter (\<lambda>i. i \<in> set (bad_columns ob n)) [0..<n])
        + length (filter (\<lambda>i. \<not> i \<in> set (bad_columns ob n)) [0..<n]) = length [0..<n]"
    by (rule sum_length_filter_compl)
  then show ?thesis
    using assms by (simp add: np_delete_def bad_columns_refilter)
qed

lemma np_delete_nths: "np_delete xs D = nths xs {i. i \<notin> set D}"
proof (induction xs rule: rev_induct)
  case Nil
  then show ?case by (simp add: np_delete_def)
next
  case (snoc x xs)
  let ?keep = "filter (\<lambda>i. i \<notin> set D) [0..<length xs]"
  have same: "map ((!) (xs @ [x])) ?keep = map ((!) xs) ?keep"
    by (rule map_cong) (auto simp: nth_append)
  have "np_delete (xs @ [x]) D
        = map ((!) (xs @ [x])) ?keep @ (if length xs \<notin> set D then [x] else [])"
    by (simp add: np_delete_def)
  also have "\<dots> = np_delete xs D @ (if length xs \<notin> set D then [x] else [])"
    unfolding same by (simp add: np_delete_def)
  also have "\<dots> = nths xs {i. i \<notin> set D} @ (if length xs \<notin> set D then [x] else [])"
    by (simp only: snoc)
  also have "\<dots> = nths (xs @ [x]) {i. i \<notin> set D}"
    by (simp add: nths_append)
  finally show ?case .
qed

lemma np_delete_nil: "np_delete xs [] = xs"
  by (simp add: np_delete_def map_nth)

lemma np_delete_no_nan:
  assumes "\<forall>i<length xs. i \<notin> set D \<longrightarrow> xs ! i \<noteq> None"
  shows "None \<notin> set (np_delete xs D)"
  using assms by (auto simp: np_delete_def)

text \<open>
  C6. For matrices of \<open>n\<close> columns and an instant vector of \<open>n\<close> entries: a column is in
  the ledger exactly when some row of some channel is undefined there; the ledger is
  strictly ascending and within range; its count is \<open>nDelete\<close> and \<open>nt\<close> drops by exactly
  that count; every row of every matrix and the instant vector keep the entries at the
  other columns, in their order.
\<close>

theorem validity_filter_correct:
  assumes shape: "\<forall>row\<in>all_rows ob. length row = n" and len: "length talli = n"
    and fl: "fl = validity_filter ob n talli"
  shows "(\<forall>j<n. j \<in> set (f_iDelete fl) \<longleftrightarrow> (\<exists>row\<in>all_rows ob. row ! j = None))
     \<and> sorted_wrt (<) (f_iDelete fl) \<and> (\<forall>j\<in>set (f_iDelete fl). j < n)
     \<and> f_nDelete fl = length (f_iDelete fl) \<and> f_nt fl + f_nDelete fl = n
     \<and> AllObs_h (f_obs fl) = map (\<lambda>row. nths row {j. j \<notin> set (f_iDelete fl)}) (AllObs_h ob)
     \<and> AllObs_w (f_obs fl) = map (\<lambda>row. nths row {j. j \<notin> set (f_iDelete fl)}) (AllObs_w ob)
     \<and> AllObs_S (f_obs fl) = map (\<lambda>row. nths row {j. j \<notin> set (f_iDelete fl)}) (AllObs_S ob)
     \<and> f_talli fl = nths talli {j. j \<notin> set (f_iDelete fl)}
     \<and> (\<forall>row\<in>all_rows (f_obs fl). length row = f_nt fl) \<and> length (f_talli fl) = f_nt fl"
proof -
  let ?D = "bad_columns ob n"
  have D: "f_iDelete fl = ?D" and k: "f_nDelete fl = length ?D" and nt': "f_nt fl = n - length ?D"
    and t': "f_talli fl = np_delete talli ?D"
    and h': "AllObs_h (f_obs fl) = map (\<lambda>row. np_delete row ?D) (AllObs_h ob)"
    and w': "AllObs_w (f_obs fl) = map (\<lambda>row. np_delete row ?D) (AllObs_w ob)"
    and S': "AllObs_S (f_obs fl) = map (\<lambda>row. np_delete row ?D) (AllObs_S ob)"
    by (simp_all add: fl validity_filter_def Let_def)
  have cnt: "length (np_delete xs ?D) = n - length ?D \<and> length ?D \<le> n" if "length xs = n" for xs
    using np_delete_length [OF that, of ob] by linarith
  have le: "length ?D \<le> n" using cnt [OF len] by simp
  have rows: "\<forall>row\<in>all_rows (f_obs fl). length row = f_nt fl"
    using shape cnt by (auto simp: all_rows_def h' w' S' nt')
  show ?thesis
    using rows le cnt [OF len]
    by (simp add: D k nt' t' h' w' S' bad_columns_iff bad_columns_ascending np_delete_nths)
qed

theorem validity_filter_correct_witness:
  "f_iDelete (validity_filter
      \<lparr>AllObs_h = [[Some 1, Some 2, Some 3], [Some 4, Some 5, Some 6]],
       AllObs_w = [[Some 1, None, Some 3], [Some 4, Some 5, Some 6]],
       AllObs_S = [[Some 1, Some 2, Some 3], [Some 4, Some 5, Some 6]]\<rparr> 3 [0, 1, 2]) = [1]
   \<and> f_nt (validity_filter
      \<lparr>AllObs_h = [[Some 1, Some 2, Some 3], [Some 4, Some 5, Some 6]],
       AllObs_w = [[Some 1, None, Some 3], [Some 4, Some 5, Some 6]],
       AllObs_S = [[Some 1, Some 2, Some 3], [Some 4, Some 5, Some 6]]\<rparr> 3 [0, 1, 2]) + 1 = 3"
proof -
  let ?ob = "\<lparr>AllObs_h = [[Some 1, Some 2, Some 3], [Some 4, Some 5, Some 6]],
       AllObs_w = [[Some 1, None, Some 3], [Some 4, Some 5, Some 6]],
       AllObs_S = [[Some 1, Some 2, Some (3::real)], [Some 4, Some 5, Some 6]]\<rparr>"
  have shape: "\<forall>row\<in>all_rows ?ob. length row = 3" by (simp add: all_rows_def)
  have len: "length [0, 1, 2 :: real] = 3" by simp
  have d: "f_iDelete (validity_filter ?ob 3 [0, 1, 2]) = [1]"
    by (simp add: validity_filter_def Let_def bad_columns_def any_isnan_def upt_rec [of _ 3]
        upt_rec [of _ "Suc _"])
  from validity_filter_correct [OF shape len refl] d show ?thesis
    by simp
qed

lemma bad_columns_none:
  assumes "\<forall>row\<in>all_rows ob. \<forall>j<n. row ! j \<noteq> None"
  shows "bad_columns ob n = []"
proof -
  have "j \<notin> set (bad_columns ob n)" for j
    using assms by (simp add: bad_columns_iff)
  then have "set (bad_columns ob n) = {}"
    by (simp only: set_empty [symmetric] all_not_in_conv [symmetric]) simp
  then show ?thesis by simp
qed

lemma validity_filter_clean:
  assumes "\<forall>row\<in>all_rows ob. \<forall>j<n. row ! j \<noteq> None"
  shows "validity_filter ob n talli =
           \<lparr>f_iDelete = [], f_nDelete = 0, f_obs = ob, f_nt = n, f_talli = talli\<rparr>"
  by (simp add: validity_filter_def Let_def bad_columns_none [OF assms] np_delete_nil)

lemma filtered_rows_defined:
  assumes shape: "\<forall>row\<in>all_rows ob. length row = n"
    and row: "row \<in> all_rows (f_obs (validity_filter ob n talli))"
  shows "None \<notin> set row"
proof -
  let ?D = "bad_columns ob n"
  from row obtain r where r: "r \<in> all_rows ob" and eq: "row = np_delete r ?D"
    by (auto simp: validity_filter_def Let_def all_rows_def)
  have "\<forall>i<length r. i \<notin> set ?D \<longrightarrow> r ! i \<noteq> None"
    using r shape bad_columns_iff [of _ ob n] by auto
  then show ?thesis
    unfolding eq by (rule np_delete_no_nan)
qed

lemma filtered_rows_length:
  assumes shape: "\<forall>row\<in>all_rows ob. length row = n"
    and row: "row \<in> all_rows (f_obs (validity_filter ob n talli))"
  shows "length row = f_nt (validity_filter ob n talli)"
proof -
  let ?D = "bad_columns ob n"
  from row obtain r where r: "r \<in> all_rows ob" and eq: "row = np_delete r ?D"
    by (auto simp: validity_filter_def Let_def all_rows_def)
  have "length r = n" using r shape by simp
  from np_delete_length [OF this, of ob] show ?thesis
    by (simp add: eq validity_filter_def Let_def)
qed

lemma filtered_entries_defined:
  assumes shape: "\<forall>row\<in>all_rows ob. length row = n"
    and row: "row \<in> all_rows (f_obs (validity_filter ob n talli))"
    and j: "j < f_nt (validity_filter ob n talli)"
  shows "row ! j \<noteq> None"
proof -
  have "j < length row"
    using filtered_rows_length [OF shape row] j by simp
  then have "row ! j \<in> set row" by (rule nth_mem)
  moreover have "None \<notin> set row"
    using shape row by (rule filtered_rows_defined)
  ultimately show ?thesis by metis
qed

lemma defined_rows_entries:
  assumes "\<forall>row\<in>all_rows ob. length row = n" and "\<forall>row\<in>all_rows ob. None \<notin> set row"
  shows "\<forall>row\<in>all_rows ob. \<forall>j<n. row ! j \<noteq> None"
proof (intro ballI allI impI)
  fix row j assume row: "row \<in> all_rows ob" and j: "j < n"
  have "j < length row" using assms(1) row j by simp
  then have "row ! j \<in> set row" by (rule nth_mem)
  moreover have "None \<notin> set row" using assms(2) row by simp
  ultimately show "row ! j \<noteq> None" by metis
qed

text \<open>
  C8. A dataset without undefined readings passes the filter unchanged, with an empty
  ledger. The output of the filter is such a dataset, so filtering it again marks no
  column and leaves the matrices, the instant vector and \<open>nt\<close> as they are.
\<close>

theorem validity_filter_idempotent:
  assumes shape: "\<forall>row\<in>all_rows ob. length row = n"
    and fl: "fl = validity_filter ob n talli"
  shows "validity_filter (f_obs fl) (f_nt fl) (f_talli fl) =
           \<lparr>f_iDelete = [], f_nDelete = 0, f_obs = f_obs fl, f_nt = f_nt fl,
            f_talli = f_talli fl\<rparr>
     \<and> ((\<forall>row\<in>all_rows ob. None \<notin> set row) \<longrightarrow>
          fl = \<lparr>f_iDelete = [], f_nDelete = 0, f_obs = ob, f_nt = n, f_talli = talli\<rparr>)"
proof -
  have "\<forall>row\<in>all_rows (f_obs fl). \<forall>j<f_nt fl. row ! j \<noteq> None"
    unfolding fl using filtered_entries_defined [OF shape] by blast
  then have again: "validity_filter (f_obs fl) (f_nt fl) (f_talli fl) =
           \<lparr>f_iDelete = [], f_nDelete = 0, f_obs = f_obs fl, f_nt = f_nt fl,
            f_talli = f_talli fl\<rparr>"
    by (rule validity_filter_clean)
  have clean: "fl = \<lparr>f_iDelete = [], f_nDelete = 0, f_obs = ob, f_nt = n, f_talli = talli\<rparr>"
    if "\<forall>row\<in>all_rows ob. None \<notin> set row"
    unfolding fl using defined_rows_entries [OF shape that] by (rule validity_filter_clean)
  show ?thesis
  proof (intro conjI impI)
    show "validity_filter (f_obs fl) (f_nt fl) (f_talli fl) =
           \<lparr>f_iDelete = [], f_nDelete = 0, f_obs = f_obs fl, f_nt = f_nt fl,
            f_talli = f_talli fl\<rparr>"
      by (rule again)
  next
    assume "\<forall>row\<in>all_rows ob. None \<notin> set row"
    then show "fl = \<lparr>f_iDelete = [], f_nDelete = 0, f_obs = ob, f_nt = n, f_talli = talli\<rparr>"
      by (rule clean)
  qed
qed

theorem validity_filter_idempotent_witness:
  "f_iDelete (validity_filter
      (f_obs (validity_filter \<lparr>AllObs_h = [[Some 1, None]], AllObs_w = [[Some 1, Some 2]],
                               AllObs_S = [[Some 1, Some 2]]\<rparr> 2 [0, 1]))
      (f_nt (validity_filter \<lparr>AllObs_h = [[Some 1, None]], AllObs_w = [[Some 1, Some 2]],
                               AllObs_S = [[Some 1, Some 2]]\<rparr> 2 [0, 1]))
      (f_talli (validity_filter \<lparr>AllObs_h = [[Some 1, None]], AllObs_w = [[Some 1, Some 2]],
                               AllObs_S = [[Some 1, Some 2]]\<rparr> 2 [0, 1]))) = []
   \<and> f_iDelete (validity_filter \<lparr>AllObs_h = [[Some 1, None]], AllObs_w = [[Some 1, Some 2]],
                               AllObs_S = [[Some 1, Some 2]]\<rparr> 2 [0, 1]) = [1]"
proof -
  let ?ob = "\<lparr>AllObs_h = [[Some 1, None]], AllObs_w = [[Some 1, Some 2]],
              AllObs_S = [[Some 1, Some (2::real)]]\<rparr>"
  have shape: "\<forall>row\<in>all_rows ?ob. length row = 2" by (simp add: all_rows_def)
  have d: "f_iDelete (validity_filter ?ob 2 [0, 1 :: real]) = [1]"
    by (simp add: validity_filter_def Let_def bad_columns_def any_isnan_def upt_rec [of _ 2]
        upt_rec [of _ "Suc _"])
  from validity_filter_idempotent [OF shape refl, of "[0, 1]"] have
    "f_iDelete (validity_filter (f_obs (validity_filter ?ob 2 [0, 1]))
       (f_nt (validity_filter ?ob 2 [0, 1])) (f_talli (validity_filter ?ob 2 [0, 1]))) = []"
    by simp
  with d show ?thesis by simp
qed

section \<open>Monotonicity of the quality tier\<close>

lemma trace_ok_invalid: "trace_ok q0 tr q \<Longrightarrow> trace_ok q0 (tr @ [2]) 2"
  by (auto simp: trace_ok_def sorted_append)

lemma read_reach_trace:
  "trace_ok q0 (ls_trace st) (ls_SetQuality st) \<Longrightarrow>
   trace_ok q0 (ls_trace (read_reach i r msk f ob st)) (ls_SetQuality (read_reach i r msk f ob st))"
  by (simp add: read_reach_def Let_def trace_ok_invalid)

lemma reach_loop_trace:
  assumes "trace_ok q0 (ls_trace st) (ls_SetQuality st)"
  shows "(reach_loop i rs al D st = Next st' \<longrightarrow> trace_ok q0 (ls_trace st') (ls_SetQuality st'))
       \<and> (reach_loop i rs al D st = Return res \<longrightarrow> trace_ok q0 (quality_trace res) (SetQuality res))"
  using assms
proof (induction rs arbitrary: i st)
  case Nil
  then show ?case by auto
next
  case (Cons r rs)
  show ?case
  proof (cases "al_overlap_fs al (reach_id r)")
    case None
    then show ?thesis by simp
  next
    case (Some msk)
    show ?thesis
    proof (cases "count_true msk \<noteq> DAll_nt D")
      case True
      then show ?thesis
        using Some Cons.prems by (auto simp: trace_ok_invalid split: list.splits)
    next
      case False
      show ?thesis
      proof (cases "swot r")
        case None
        then show ?thesis using Some False by simp
      next
        case f: (Some f)
        show ?thesis
        proof (cases "length msk \<noteq> length f")
          case True
          then show ?thesis using Some False f by simp
        next
          case len: False
          show ?thesis
          proof (cases "ls_AllObs st")
            case FloatZero
            then show ?thesis using Some False f len by simp
          next
            case (Obs ob)
            have eq: "reach_loop i (r # rs) al D st = reach_loop (Suc i) rs al D (read_reach i r msk f ob st)"
              using Some False f len Obs by simp
            show ?thesis
              unfolding eq by (rule Cons.IH) (rule read_reach_trace [OF Cons.prems])
          qed
        qed
      qed
    qed
  qed
qed

lemma retrieve_obs_returns:
  assumes "retrieve_obs rs = Inr res"
  obtains al where "time_alignment rs = Inr al" and "list_all datetime_ok (al_overlap_ts al)"
    and "rs \<noteq> []"
proof -
  from assms obtain al where al: "time_alignment rs = Inr al"
    by (cases "time_alignment rs") (simp_all add: retrieve_obs_def)
  have dt: "list_all datetime_ok (al_overlap_ts al)"
  proof (rule ccontr)
    assume "\<not> list_all datetime_ok (al_overlap_ts al)"
    then have "retrieve_obs rs = Inl OverflowError"
      using al by (simp add: retrieve_obs_def tall_def)
    with assms show False by simp
  qed
  have "rs \<noteq> []"
  proof
    assume "rs = []"
    then have "retrieve_obs rs = Inl NameError"
      using al dt by (simp add: retrieve_obs_def tall_def)
    with assms show False by simp
  qed
  with al dt show ?thesis by (rule that)
qed

lemma retrieve_obs_unfold:
  assumes "time_alignment rs = Inr al" and "rs \<noteq> []"
    and "list_all datetime_ok (al_overlap_ts al)"
  shows "retrieve_obs rs =
     (if al_nt al < ntmin_prior then
        Inr \<lparr>Qbar = [], iDelete = Scalar 0, nDelete = 0, SetQuality = 2,
             DAll = initial_domain al rs, AllObs = ls_AllObs (initial_state rs),
             overlap_ts_out = al_overlap_ts al,
             reads = [], quality_trace = [initial_quality (length rs), 2]\<rparr>
      else
        (case reach_loop 0 rs al (initial_domain al rs) (initial_state rs) of
           Raise e \<Rightarrow> Inl e
         | Return res \<Rightarrow> Inr res
         | Next st \<Rightarrow>
             (case ls_AllObs st of
                FloatZero \<Rightarrow> Inl AttributeError
              | Obs ob \<Rightarrow>
                  Inr (post_filter (initial_domain al rs) (al_overlap_ts al) st ob
                         (elapsed_days (al_overlap_ts al))))))"
proof -
  from assms(2) obtain r rest where rs: "rs = r # rest" by (cases rs) auto
  have d: "DAll_nt (initial_domain al rs) = al_nt al" by (simp add: initial_domain_def)
  have s: "ls_Qbar (initial_state rs) = []" "ls_reads (initial_state rs) = []"
    "ls_trace (initial_state rs) = [initial_quality (length rs)]"
    by (simp_all add: initial_state_def)
  have dts: "tall (al_overlap_ts al) = Inr (al_overlap_ts al)"
    using assms(3) by (simp add: tall_def)
  have "retrieve_obs (r # rest) =
     (let D = initial_domain al (r # rest);
          talli = elapsed_days (al_overlap_ts al);
          st0 = initial_state (r # rest)
      in if DAll_nt D < ntmin_prior then
           Inr \<lparr>Qbar = ls_Qbar st0, iDelete = Scalar 0, nDelete = 0, SetQuality = 2,
                DAll = D, AllObs = ls_AllObs st0, overlap_ts_out = al_overlap_ts al,
                reads = ls_reads st0, quality_trace = ls_trace st0 @ [2]\<rparr>
         else
           (case reach_loop 0 (r # rest) al D st0 of
              Raise e \<Rightarrow> Inl e
            | Return res \<Rightarrow> Inr res
            | Next st \<Rightarrow>
                (case ls_AllObs st of
                   FloatZero \<Rightarrow> Inl AttributeError
                 | Obs ob \<Rightarrow> Inr (post_filter D (al_overlap_ts al) st ob talli))))"
    using assms(1) dts unfolding retrieve_obs_def rs by (simp only: sum.case list.case)
  then show ?thesis
    unfolding rs [symmetric] Let_def d s by simp
qed

lemma initial_trace_ok: "trace_ok (initial_quality nr) [initial_quality nr] (initial_quality nr)"
  by (simp add: trace_ok_def initial_quality_def)

lemma post_filter_trace:
  assumes "trace_ok q0 (ls_trace st) (ls_SetQuality st)"
  shows "trace_ok q0 (quality_trace (post_filter D ots st ob talli))
           (SetQuality (post_filter D ots st ob talli))"
proof (cases "post_filter_branch ntmin ntmin_prior (f_nt (validity_filter ob (DAll_nt D) talli))")
  case PostInvalid
  then show ?thesis
    using assms by (simp add: post_filter_def Let_def post_filter_quality_def trace_ok_invalid)
next
  case PostDegraded
  then show ?thesis
    by (simp add: post_filter_branch_def ntmin_def ntmin_prior_def split: if_splits)
next
  case PostPass
  then show ?thesis
    using assms by (simp add: post_filter_def Let_def post_filter_quality_def)
qed

lemma initial_state_trace:
  "trace_ok (initial_quality (length rs)) (ls_trace (initial_state rs))
     (ls_SetQuality (initial_state rs))"
  by (simp add: initial_state_def initial_trace_ok)

text \<open>
  C4. Whenever \<open>retrieve_obs\<close> returns, the values \<open>SetQuality\<close> took during the run
  (initial classification, checkpoint before the filter, consistency guard, prior guard,
  checkpoint after the filter) never decrease: 0 (Nominal), 1 (Degraded), 2 (Invalid) in
  that order of worsening, the first is the initial classification and the returned tier is
  the last one. So no later assignment writes 0 or 1 over a 2.
\<close>

theorem quality_tier_monotone:
  assumes "retrieve_obs rs = Inr res"
  shows "sorted (quality_trace res) \<and> quality_trace res \<noteq> []
       \<and> last (quality_trace res) = SetQuality res \<and> set (quality_trace res) \<subseteq> {0, 1, 2}
       \<and> hd (quality_trace res) = initial_quality (length rs)"
proof -
  from assms obtain al where al: "time_alignment rs = Inr al"
    and dt: "list_all datetime_ok (al_overlap_ts al)" and ne: "rs \<noteq> []"
    by (rule retrieve_obs_returns)
  let ?q0 = "initial_quality (length rs)"
  let ?D = "initial_domain al rs"
  note run = retrieve_obs_unfold [OF al ne dt]
  note loop = reach_loop_trace [OF initial_state_trace, of 0 rs al ?D]
  have "trace_ok ?q0 (quality_trace res) (SetQuality res)"
  proof (cases "al_nt al < ntmin_prior")
    case True
    then have "quality_trace res = [?q0, 2]" and "SetQuality res = 2"
      using assms run by auto
    then show ?thesis
      by (simp add: trace_ok_def initial_quality_def)
  next
    case False
    show ?thesis
    proof (cases "reach_loop 0 rs al ?D (initial_state rs)")
      case (Raise e)
      then show ?thesis using assms run False by simp
    next
      case (Return res')
      then have "res' = res" using assms run False by simp
      with Return loop show ?thesis by simp
    next
      case (Next st)
      then have ok: "trace_ok ?q0 (ls_trace st) (ls_SetQuality st)"
        using loop by simp
      from Next assms run False obtain ob where
        "res = post_filter ?D (al_overlap_ts al) st ob (elapsed_days (al_overlap_ts al))"
        by (auto split: allobs.splits)
      then show ?thesis
        using post_filter_trace [OF ok] by simp
    qed
  qed
  then show ?thesis
    by (simp add: trace_ok_def)
qed

lemmas retrieval_simps = retrieve_obs_def alignment_simps initial_domain_def initial_state_def
  initial_quality_def nRmin_def ntmin_def ntmin_prior_def read_reach_def reach_reads_def
  count_true_def select_def post_filter_def post_filter_branch_def post_filter_quality_def
  validity_filter_def bad_columns_def any_isnan_def np_delete_def elapsed_days_def tall_def
  datetime_ok_def Let_def

theorem quality_tier_monotone_witness:
  "\<exists>res. retrieve_obs [rows_reach 3 [(Some 1, Some 1, Some 1, Some 1),
       (Some 2, Some 1, Some 1, Some 1), (Some 3, Some 1, None, Some 1),
       (Some 4, Some 1, Some 1, Some 1), (Some 5, Some 1, Some 1, Some 1)] None] = Inr res
     \<and> quality_trace res = [1, 2] \<and> sorted (quality_trace res)
     \<and> last (quality_trace res) = SetQuality res"
proof -
  let ?rs = "[rows_reach 3 [(Some 1, Some 1, Some 1, Some 1),
       (Some 2, Some 1, Some 1, Some 1), (Some 3, Some 1, None, Some 1),
       (Some 4, Some 1, Some 1, Some 1), (Some 5, Some 1, Some 1, Some 1)] None]"
  obtain res where r: "retrieve_obs ?rs = Inr res" and t: "quality_trace res = [1, 2]"
    by (simp add: retrieval_simps upt_rec [of _ 5] upt_rec [of _ 4] upt_rec [of _ "Suc _"])
  from quality_tier_monotone [OF r] r t show ?thesis
    by blast
qed

lemma read_reach_fields:
  "ls_reads (read_reach i r msk f ob st) = ls_reads st @ reach_reads i"
  "ls_Qbar (read_reach i r msk f ob st) = ls_Qbar st @ [sos_mean_q r]"
  "ls_SetQuality (read_reach i r msk f ob st) =
     (if sos_mean_q r = None then 2 else ls_SetQuality st)"
  "\<exists>ob'. ls_AllObs (read_reach i r msk f ob st) = Obs ob'"
  by (simp_all add: read_reach_def Let_def)

lemma reach_loop_Cons_Next:
  assumes "reach_loop i (r # rs) al D st = Next st'"
  obtains msk f ob where "al_overlap_fs al (reach_id r) = Some msk"
    and "count_true msk = DAll_nt D" and "swot r = Some f" and "length msk = length f"
    and "ls_AllObs st = Obs ob"
    and "reach_loop (Suc i) rs al D (read_reach i r msk f ob st) = Next st'"
  using assms by (auto split: option.splits if_splits list.splits allobs.splits)

lemma reach_loop_next:
  "reach_loop i rs al D st = Next st' \<Longrightarrow>
     ls_reads st' = ls_reads st @ concat (map reach_reads [i..<i + length rs])
   \<and> ls_Qbar st' = ls_Qbar st @ map sos_mean_q rs
   \<and> ls_SetQuality st' = (if \<exists>r\<in>set rs. sos_mean_q r = None then 2 else ls_SetQuality st)"
proof (induction rs arbitrary: i st)
  case Nil
  then show ?case by simp
next
  case (Cons r rs)
  from Cons.prems obtain msk f ob where
    step: "reach_loop (Suc i) rs al D (read_reach i r msk f ob st) = Next st'"
    by (rule reach_loop_Cons_Next)
  have up: "[i..<i + length (r # rs)] = i # [Suc i..<Suc i + length rs]"
    by (simp add: upt_rec)
  note IH = Cons.IH [OF step]
  have a: "ls_reads st' = ls_reads st @ concat (map reach_reads [i..<i + length (r # rs)])"
    using IH by (simp only: up read_reach_fields list.map concat.simps append_assoc)
  have b: "ls_Qbar st' = ls_Qbar st @ map sos_mean_q (r # rs)"
    using IH by (simp only: read_reach_fields list.map append_assoc append.simps)
  have c: "ls_SetQuality st' =
      (if \<exists>x\<in>set (r # rs). sos_mean_q x = None then 2 else ls_SetQuality st)"
  proof -
    have "ls_SetQuality st' = (if \<exists>x\<in>set rs. sos_mean_q x = None then 2
         else if sos_mean_q r = None then 2 else ls_SetQuality st)"
      using IH by (simp only: read_reach_fields)
    then show ?thesis by auto
  qed
  from a b c show ?case by blast
qed

lemma reach_loop_return:
  "reach_loop i rs al D st = Return res \<Longrightarrow> iDelete res = Scalar 0 \<and> nDelete res = 0"
proof (induction rs arbitrary: i st)
  case Nil
  then show ?case by simp
next
  case (Cons r rs)
  then show ?case
    by (auto split: option.splits if_splits list.splits allobs.splits)
qed

lemma reach_loop_total:
  assumes "\<forall>r\<in>set rs. \<exists>msk f. al_overlap_fs al (reach_id r) = Some msk
             \<and> count_true msk = DAll_nt D \<and> swot r = Some f \<and> length msk = length f"
    and "\<exists>ob. ls_AllObs st = Obs ob"
  shows "\<exists>st'. reach_loop i rs al D st = Next st'"
  using assms
proof (induction rs arbitrary: i st)
  case Nil
  then show ?case by simp
next
  case (Cons r rs)
  from Cons.prems(1) obtain msk f where m: "al_overlap_fs al (reach_id r) = Some msk"
    "count_true msk = DAll_nt D" "swot r = Some f" "length msk = length f"
    by auto
  from Cons.prems(2) obtain ob where ob: "ls_AllObs st = Obs ob" by blast
  have rest: "\<forall>r\<in>set rs. \<exists>msk f. al_overlap_fs al (reach_id r) = Some msk
             \<and> count_true msk = DAll_nt D \<and> swot r = Some f \<and> length msk = length f"
    using Cons.prems(1) by simp
  have eq: "reach_loop i (r # rs) al D st = reach_loop (Suc i) rs al D (read_reach i r msk f ob st)"
    using m ob by simp
  show ?case
    unfolding eq by (rule Cons.IH [OF rest]) (rule read_reach_fields)
qed

section \<open>The prior guard and the ledger\<close>

lemma initial_quality_le: "initial_quality nr \<noteq> 2"
  by (simp add: initial_quality_def)

lemma post_filter_pass:
  assumes "ntmin \<le> f_nt (validity_filter ob (DAll_nt D) talli)"
  shows "post_filter D ots st ob talli =
     \<lparr>Qbar = ls_Qbar st, iDelete = Indices (f_iDelete (validity_filter ob (DAll_nt D) talli)),
      nDelete = f_nDelete (validity_filter ob (DAll_nt D) talli),
      SetQuality = ls_SetQuality st,
      DAll = D\<lparr>DAll_nt := f_nt (validity_filter ob (DAll_nt D) talli),
               DAll_t := Some (f_talli (validity_filter ob (DAll_nt D) talli))\<rparr>,
      AllObs = Obs (f_obs (validity_filter ob (DAll_nt D) talli)), overlap_ts_out = ots,
      reads = ls_reads st, quality_trace = ls_trace st\<rparr>"
proof -
  have "post_filter_branch ntmin ntmin_prior (f_nt (validity_filter ob (DAll_nt D) talli)) = PostPass"
    using assms by (simp add: post_filter_branch_def)
  then show ?thesis
    by (simp add: post_filter_def Let_def post_filter_quality_def)
qed

lemma post_filter_stop:
  assumes "f_nt (validity_filter ob (DAll_nt D) talli) < ntmin"
  shows "post_filter D ots st ob talli =
     \<lparr>Qbar = ls_Qbar st, iDelete = Scalar 0, nDelete = 0, SetQuality = 2,
      DAll = D\<lparr>DAll_nt := f_nt (validity_filter ob (DAll_nt D) talli)\<rparr>,
      AllObs = Obs (f_obs (validity_filter ob (DAll_nt D) talli)), overlap_ts_out = ots,
      reads = ls_reads st, quality_trace = ls_trace st @ [2]\<rparr>"
proof -
  have "post_filter_branch ntmin ntmin_prior (f_nt (validity_filter ob (DAll_nt D) talli)) = PostInvalid"
    using assms by (simp add: post_filter_branch_def ntmin_def ntmin_prior_def)
  then show ?thesis
    by (simp add: post_filter_def Let_def post_filter_quality_def)
qed

lemma reach_loop_obs:
  "reach_loop i rs al D st = Next st' \<Longrightarrow> \<exists>ob. ls_AllObs st = Obs ob \<Longrightarrow>
   \<exists>ob. ls_AllObs st' = Obs ob"
proof (induction rs arbitrary: i st)
  case Nil
  then show ?case by simp
next
  case (Cons r rs)
  from Cons.prems(1) obtain msk f ob where
    step: "reach_loop (Suc i) rs al D (read_reach i r msk f ob st) = Next st'"
    by (rule reach_loop_Cons_Next)
  show ?case
    by (rule Cons.IH [OF step]) (rule read_reach_fields)
qed

lemma select_nths:
  "length msk = length xs \<Longrightarrow> select msk xs = nths xs {j. msk ! j}"
proof (induction msk xs rule: list_induct2)
  case Nil
  then show ?case by (simp add: select_def)
next
  case (Cons b msk x xs)
  then show ?case by (simp add: select_def nths_Cons)
qed

lemma reach_reads_eq:
  "reach_reads = (\<lambda>i. [ReadWse i, ReadWidth i, ReadSlope i, ReadPrior i, ReadReference i])"
  by (rule ext) (simp add: reach_reads_def)

lemma read_reach_obs:
  "ls_AllObs (read_reach i r msk f ob st) =
     Obs \<lparr>AllObs_h = AllObs_h ob @ [select msk (swot_wse f)],
          AllObs_w = AllObs_w ob @ [select msk (swot_width f)],
          AllObs_S = AllObs_S ob @ [select msk (swot_slope2 f)]\<rparr>"
  by (simp add: read_reach_def Let_def)

lemma reach_loop_matrices:
  "reach_loop i rs al D st = Next st' \<Longrightarrow> ls_AllObs st = Obs ob \<Longrightarrow>
   ls_AllObs st' =
     Obs \<lparr>AllObs_h = AllObs_h ob @ map (\<lambda>r. nths (swot_wse (the (swot r)))
                                   {j. the (al_overlap_fs al (reach_id r)) ! j}) rs,
          AllObs_w = AllObs_w ob @ map (\<lambda>r. nths (swot_width (the (swot r)))
                                   {j. the (al_overlap_fs al (reach_id r)) ! j}) rs,
          AllObs_S = AllObs_S ob @ map (\<lambda>r. nths (swot_slope2 (the (swot r)))
                                   {j. the (al_overlap_fs al (reach_id r)) ! j}) rs\<rparr>"
proof (induction rs arbitrary: i st ob)
  case Nil
  then show ?case by simp
next
  case (Cons r rs)
  from Cons.prems(1) obtain msk f ob0 where m: "al_overlap_fs al (reach_id r) = Some msk"
    and f: "swot r = Some f" and len: "length msk = length f"
    and ob0: "ls_AllObs st = Obs ob0"
    and step: "reach_loop (Suc i) rs al D (read_reach i r msk f ob0 st) = Next st'"
    by (rule reach_loop_Cons_Next)
  from ob0 Cons.prems(2) have eq: "ob0 = ob" by simp
  have h: "select msk (swot_wse f) = nths (swot_wse f) {j. msk ! j}"
    and w: "select msk (swot_width f) = nths (swot_width f) {j. msk ! j}"
    and S: "select msk (swot_slope2 f) = nths (swot_slope2 f) {j. msk ! j}"
    using len by (simp_all add: select_nths swot_simps)
  from Cons.IH [OF step read_reach_obs] show ?case
    by (simp add: m f eq h w S)
qed

lemma invalid_with_ledger:
  assumes ok: "retrieve_obs rs = Inr res" and inv: "SetQuality res = 2"
    and led: "\<not> (iDelete res = Scalar 0 \<and> nDelete res = 0)"
  shows "(\<exists>r\<in>set rs. sos_mean_q r = None) \<and> ntmin \<le> DAll_nt (DAll res)
       \<and> reads res = concat (map (\<lambda>i. [ReadWse i, ReadWidth i, ReadSlope i, ReadPrior i, ReadReference i])
                         [0..<length rs])"
proof -
  from ok obtain al where al: "time_alignment rs = Inr al"
    and dt: "list_all datetime_ok (al_overlap_ts al)" and ne: "rs \<noteq> []"
    by (rule retrieve_obs_returns)
  let ?D = "initial_domain al rs"
  let ?talli = "elapsed_days (al_overlap_ts al)"
  note run = retrieve_obs_unfold [OF al ne dt]
  have big: "\<not> al_nt al < ntmin_prior"
    using run ok led by auto
  show ?thesis
  proof (cases "reach_loop 0 rs al ?D (initial_state rs)")
    case (Raise e)
    then show ?thesis using ok run big by simp
  next
    case (Return res')
    then have "res' = res" using ok run big by simp
    with Return reach_loop_return led show ?thesis by blast
  next
    case (Next st)
    from Next ok run big obtain ob where
      res: "res = post_filter ?D (al_overlap_ts al) st ob ?talli"
      by (auto split: allobs.splits)
    let ?fl = "validity_filter ob (DAll_nt ?D) ?talli"
    have pass: "ntmin \<le> f_nt ?fl"
    proof (rule ccontr)
      assume "\<not> ntmin \<le> f_nt ?fl"
      then have "f_nt ?fl < ntmin" by simp
      from post_filter_stop [OF this] res led show False by simp
    qed
    note r = post_filter_pass [OF pass, of "al_overlap_ts al" st]
    note lp = reach_loop_next [OF Next]
    have q: "ls_SetQuality st = 2" using res r inv by simp
    have nan: "\<exists>r\<in>set rs. sos_mean_q r = None"
    proof (rule ccontr)
      assume "\<not> (\<exists>r\<in>set rs. sos_mean_q r = None)"
      with lp have "ls_SetQuality st = ls_SetQuality (initial_state rs)" by simp
      with q show False by (simp add: initial_state_def initial_quality_le)
    qed
    have rd: "reads res = concat (map (\<lambda>i. [ReadWse i, ReadWidth i, ReadSlope i, ReadPrior i, ReadReference i])
                         [0..<length rs])"
      using res r lp by (simp add: initial_state_def reach_reads_eq)
    have n: "ntmin \<le> DAll_nt (DAll res)"
      using res r pass by simp
    from nan n rd show ?thesis by blast
  qed
qed

text \<open>
  C10. When the aligned count is at least \<open>ntmin_prior\<close>, the aligned instants are hours
  that line 180 can turn into datetimes, the consistency check passes for every reach and
  some prior is undefined, \<open>retrieve_obs\<close> returns with tier 2 after the loop has read
  every reach: the log holds the three channels, the prior and the reference data of
  each position in order, \<open>Qbar\<close> holds every prior, and row \<open>i\<close> of each matrix holds
  the entries of that channel of the file of reach \<open>i\<close> at the positions its mask marks.
  The validity filter has run on these matrices; the ledger returned is the filter's when
  the filtered count is at least \<open>ntmin\<close>, and the integer 0 with count 0 otherwise.
  Conversely any return with tier 2 whose ledger is not the integer 0 with count 0 has
  an undefined prior, a filtered count of at least \<open>ntmin\<close> and a complete read log.
\<close>

theorem undefined_prior_no_short_circuit:
  "(time_alignment rs = Inr al \<and> ntmin_prior \<le> al_nt al \<and> rs \<noteq> []
      \<and> (\<forall>t\<in>set (al_overlap_ts al). - 17522856 \<le> t \<and> t \<le> 70126559)
      \<and> (\<forall>r\<in>set rs. \<exists>msk f. al_overlap_fs al (reach_id r) = Some msk
             \<and> length (filter (\<lambda>b. b) msk) = al_nt al \<and> swot r = Some f
             \<and> length msk = length f)
      \<and> (\<exists>r\<in>set rs. sos_mean_q r = None)
      \<and> ob = \<lparr>AllObs_h = map (\<lambda>r. nths (swot_wse (the (swot r)))
                              {j. the (al_overlap_fs al (reach_id r)) ! j}) rs,
            AllObs_w = map (\<lambda>r. nths (swot_width (the (swot r)))
                              {j. the (al_overlap_fs al (reach_id r)) ! j}) rs,
            AllObs_S = map (\<lambda>r. nths (swot_slope2 (the (swot r)))
                              {j. the (al_overlap_fs al (reach_id r)) ! j}) rs\<rparr>
      \<and> fl = validity_filter ob (al_nt al) (elapsed_days (al_overlap_ts al))
    \<longrightarrow> (\<exists>res. retrieve_obs rs = Inr res
          \<and> SetQuality res = 2
          \<and> reads res = concat (map (\<lambda>i. [ReadWse i, ReadWidth i, ReadSlope i, ReadPrior i, ReadReference i])
                         [0..<length rs])
          \<and> Qbar res = map sos_mean_q rs
          \<and> AllObs res = Obs (f_obs fl) \<and> DAll_nt (DAll res) = f_nt fl
          \<and> (ntmin \<le> f_nt fl \<longrightarrow>
                iDelete res = Indices (f_iDelete fl) \<and> nDelete res = f_nDelete fl)
          \<and> (f_nt fl < ntmin \<longrightarrow> iDelete res = Scalar 0 \<and> nDelete res = 0)))
   \<and> (retrieve_obs rs' = Inr res' \<and> SetQuality res' = 2
        \<and> \<not> (iDelete res' = Scalar 0 \<and> nDelete res' = 0)
    \<longrightarrow> (\<exists>r\<in>set rs'. sos_mean_q r = None) \<and> ntmin \<le> DAll_nt (DAll res')
          \<and> reads res' = concat (map (\<lambda>i. [ReadWse i, ReadWidth i, ReadSlope i, ReadPrior i, ReadReference i])
                         [0..<length rs']))"
proof (intro conjI impI)
  assume h: "time_alignment rs = Inr al \<and> ntmin_prior \<le> al_nt al \<and> rs \<noteq> []
      \<and> (\<forall>t\<in>set (al_overlap_ts al). - 17522856 \<le> t \<and> t \<le> 70126559)
      \<and> (\<forall>r\<in>set rs. \<exists>msk f. al_overlap_fs al (reach_id r) = Some msk
             \<and> length (filter (\<lambda>b. b) msk) = al_nt al \<and> swot r = Some f
             \<and> length msk = length f)
      \<and> (\<exists>r\<in>set rs. sos_mean_q r = None)
      \<and> ob = \<lparr>AllObs_h = map (\<lambda>r. nths (swot_wse (the (swot r)))
                              {j. the (al_overlap_fs al (reach_id r)) ! j}) rs,
            AllObs_w = map (\<lambda>r. nths (swot_width (the (swot r)))
                              {j. the (al_overlap_fs al (reach_id r)) ! j}) rs,
            AllObs_S = map (\<lambda>r. nths (swot_slope2 (the (swot r)))
                              {j. the (al_overlap_fs al (reach_id r)) ! j}) rs\<rparr>
      \<and> fl = validity_filter ob (al_nt al) (elapsed_days (al_overlap_ts al))"
  let ?D = "initial_domain al rs"
  let ?talli = "elapsed_days (al_overlap_ts al)"
  from h have al: "time_alignment rs = Inr al" and big: "\<not> al_nt al < ntmin_prior"
    and ne: "rs \<noteq> []" and nan: "\<exists>r\<in>set rs. sos_mean_q r = None"
    and rng: "\<forall>t\<in>set (al_overlap_ts al). - 17522856 \<le> t \<and> t \<le> 70126559"
    and fl: "fl = validity_filter ob (al_nt al) ?talli"
    by simp_all
  from h have ob: "ob = \<lparr>AllObs_h = map (\<lambda>r. nths (swot_wse (the (swot r)))
                                   {j. the (al_overlap_fs al (reach_id r)) ! j}) rs,
                 AllObs_w = map (\<lambda>r. nths (swot_width (the (swot r)))
                                   {j. the (al_overlap_fs al (reach_id r)) ! j}) rs,
                 AllObs_S = map (\<lambda>r. nths (swot_slope2 (the (swot r)))
                                   {j. the (al_overlap_fs al (reach_id r)) ! j}) rs\<rparr>"
    by blast
  from h have g: "\<forall>r\<in>set rs. \<exists>msk f. al_overlap_fs al (reach_id r) = Some msk
             \<and> length (filter (\<lambda>b. b) msk) = al_nt al \<and> swot r = Some f
             \<and> length msk = length f"
    by blast
  have dt: "list_all datetime_ok (al_overlap_ts al)"
    using rng by (simp add: list_all_iff datetime_ok_def)
  have "swot (last rs) \<noteq> None"
    using g last_in_set [OF ne] by fastforce
  then have ob0: "ls_AllObs (initial_state rs) = Obs \<lparr>AllObs_h = [], AllObs_w = [], AllObs_S = []\<rparr>"
    by (simp add: initial_state_def)
  then have ob0': "\<exists>ob. ls_AllObs (initial_state rs) = Obs ob" by blast
  have guard: "\<forall>r\<in>set rs. \<exists>msk f. al_overlap_fs al (reach_id r) = Some msk
             \<and> count_true msk = DAll_nt ?D \<and> swot r = Some f \<and> length msk = length f"
    using g by (simp add: initial_domain_def count_true_def)
  from reach_loop_total [OF guard ob0'] obtain st where
    st: "reach_loop 0 rs al ?D (initial_state rs) = Next st" by blast
  note lp = reach_loop_next [OF st]
  have mat: "ls_AllObs st = Obs ob"
    using reach_loop_matrices [OF st ob0] by (simp add: ob)
  define res where "res = post_filter ?D (al_overlap_ts al) st ob ?talli"
  have dnt: "DAll_nt ?D = al_nt al" by (simp add: initial_domain_def)
  have run: "retrieve_obs rs = Inr res"
    using retrieve_obs_unfold [OF al ne dt] big st mat by (simp add: res_def)
  have q: "ls_SetQuality st = 2" using lp nan by simp
  have rd: "ls_reads st = concat (map (\<lambda>i. [ReadWse i, ReadWidth i, ReadSlope i, ReadPrior i, ReadReference i])
                         [0..<length rs])"
    and qb: "ls_Qbar st = map sos_mean_q rs"
    using lp by (simp_all add: initial_state_def reach_reads_eq)
  have pass: "SetQuality res = 2 \<and> reads res = ls_reads st \<and> Qbar res = ls_Qbar st
      \<and> AllObs res = Obs (f_obs fl) \<and> DAll_nt (DAll res) = f_nt fl
      \<and> iDelete res = Indices (f_iDelete fl) \<and> nDelete res = f_nDelete fl"
    if "ntmin \<le> f_nt fl"
    using post_filter_pass [of ob ?D ?talli "al_overlap_ts al" st] that q
    by (simp add: res_def fl dnt)
  have stop: "SetQuality res = 2 \<and> reads res = ls_reads st \<and> Qbar res = ls_Qbar st
      \<and> AllObs res = Obs (f_obs fl) \<and> DAll_nt (DAll res) = f_nt fl
      \<and> iDelete res = Scalar 0 \<and> nDelete res = 0"
    if "f_nt fl < ntmin"
    using post_filter_stop [of ob ?D ?talli "al_overlap_ts al" st] that
    by (simp add: res_def fl dnt)
  have both: "SetQuality res = 2
      \<and> reads res = concat (map (\<lambda>i. [ReadWse i, ReadWidth i, ReadSlope i, ReadPrior i, ReadReference i])
                         [0..<length rs])
      \<and> Qbar res = map sos_mean_q rs
      \<and> AllObs res = Obs (f_obs fl) \<and> DAll_nt (DAll res) = f_nt fl
      \<and> (ntmin \<le> f_nt fl \<longrightarrow>
            iDelete res = Indices (f_iDelete fl) \<and> nDelete res = f_nDelete fl)
      \<and> (f_nt fl < ntmin \<longrightarrow> iDelete res = Scalar 0 \<and> nDelete res = 0)"
  proof (cases "ntmin \<le> f_nt fl")
    case True
    with pass rd qb show ?thesis by simp
  next
    case False
    then have "f_nt fl < ntmin" by simp
    with stop rd qb show ?thesis by simp
  qed
  show "\<exists>res. retrieve_obs rs = Inr res
          \<and> SetQuality res = 2
          \<and> reads res = concat (map (\<lambda>i. [ReadWse i, ReadWidth i, ReadSlope i, ReadPrior i, ReadReference i])
                         [0..<length rs])
          \<and> Qbar res = map sos_mean_q rs
          \<and> AllObs res = Obs (f_obs fl) \<and> DAll_nt (DAll res) = f_nt fl
          \<and> (ntmin \<le> f_nt fl \<longrightarrow>
                iDelete res = Indices (f_iDelete fl) \<and> nDelete res = f_nDelete fl)
          \<and> (f_nt fl < ntmin \<longrightarrow> iDelete res = Scalar 0 \<and> nDelete res = 0)"
    using run both by blast
next
  assume "retrieve_obs rs' = Inr res' \<and> SetQuality res' = 2
        \<and> \<not> (iDelete res' = Scalar 0 \<and> nDelete res' = 0)"
  then show "\<exists>r\<in>set rs'. sos_mean_q r = None" "ntmin \<le> DAll_nt (DAll res')"
    "reads res' = concat (map (\<lambda>i. [ReadWse i, ReadWidth i, ReadSlope i, ReadPrior i, ReadReference i])
                         [0..<length rs'])"
    using invalid_with_ledger [of rs' res'] by blast+
qed

theorem undefined_prior_no_short_circuit_witness:
  "\<exists>res. retrieve_obs [rows_reach 3 [(Some 1, Some 10, Some 20, Some 30),
       (None, Some 99, Some 98, Some 97), (Some 2, Some 11, Some 21, Some 31),
       (Some 3, Some 12, None, Some 32), (Some 4, Some 13, Some 23, Some 33),
       (Some 5, Some 14, Some 24, Some 34)] None,
     rows_reach 8 [(Some 1, Some 40, Some 50, Some 60), (Some 2, Some 41, Some 51, Some 61),
       (Some 2, Some 77, Some 78, Some 79), (Some 3, Some 42, Some 52, Some 62),
       (Some 4, Some 43, Some 53, Some 63), (Some 5, Some 44, Some 54, Some 64),
       (Some 6, Some 45, Some 55, Some 65)] (Some 9)] = Inr res
     \<and> SetQuality res = 2 \<and> iDelete res = Indices [2] \<and> nDelete res = 1
     \<and> reads res = [ReadWse 0, ReadWidth 0, ReadSlope 0, ReadPrior 0, ReadReference 0,
                      ReadWse 1, ReadWidth 1, ReadSlope 1, ReadPrior 1, ReadReference 1]
     \<and> Qbar res = [None, Some 9] \<and> DAll_nt (DAll res) = 4
     \<and> AllObs res = Obs \<lparr>AllObs_h = [[Some 10, Some 11, Some 13, Some 14],
                                       [Some 40, Some 41, Some 43, Some 44]],
                           AllObs_w = [[Some 20, Some 21, Some 23, Some 24],
                                       [Some 50, Some 51, Some 53, Some 54]],
                           AllObs_S = [[Some 30, Some 31, Some 33, Some 34],
                                       [Some 60, Some 61, Some 63, Some 64]]\<rparr>"
proof -
  let ?rs = "[rows_reach 3 [(Some 1, Some 10, Some 20, Some 30),
       (None, Some 99, Some 98, Some 97), (Some 2, Some 11, Some 21, Some 31),
       (Some 3, Some 12, None, Some 32), (Some 4, Some 13, Some 23, Some 33),
       (Some 5, Some 14, Some 24, Some 34)] None,
     rows_reach 8 [(Some 1, Some 40, Some 50, Some 60), (Some 2, Some 41, Some 51, Some 61),
       (Some 2, Some 77, Some 78, Some 79), (Some 3, Some 42, Some 52, Some 62),
       (Some 4, Some 43, Some 53, Some 63), (Some 5, Some 44, Some 54, Some 64),
       (Some 6, Some 45, Some 55, Some 65)] (Some 9)]"
  obtain al where al: "time_alignment ?rs = Inr al" and n: "al_nt al = 5"
    and ts: "al_overlap_ts al = [1, 2, 3, 4, 5]"
    and m3: "al_overlap_fs al 3 = Some [True, False, True, True, True, True]"
    and m8: "al_overlap_fs al 8 = Some [True, True, False, True, True, True, False]"
    by (simp add: alignment_simps upt_rec [of _ 7] upt_rec [of _ 6] upt_rec [of _ 5]
        upt_rec [of _ 4] upt_rec [of _ "Suc _"])
  define ob where "ob = \<lparr>AllObs_h = map (\<lambda>r. nths (swot_wse (the (swot r)))
                                   {j. the (al_overlap_fs al (reach_id r)) ! j}) ?rs,
                 AllObs_w = map (\<lambda>r. nths (swot_width (the (swot r)))
                                   {j. the (al_overlap_fs al (reach_id r)) ! j}) ?rs,
                 AllObs_S = map (\<lambda>r. nths (swot_slope2 (the (swot r)))
                                   {j. the (al_overlap_fs al (reach_id r)) ! j}) ?rs\<rparr>"
  define fl where "fl = validity_filter ob (al_nt al) (elapsed_days (al_overlap_ts al))"
  have obv: "ob = \<lparr>AllObs_h = [[Some 10, Some 11, Some 12, Some 13, Some 14],
                              [Some 40, Some 41, Some 42, Some 43, Some 44]],
                  AllObs_w = [[Some 20, Some 21, None, Some 23, Some 24],
                              [Some 50, Some 51, Some 52, Some 53, Some 54]],
                  AllObs_S = [[Some 30, Some 31, Some 32, Some 33, Some 34],
                              [Some 60, Some 61, Some 62, Some 63, Some 64]]\<rparr>"
    by (simp add: ob_def m3 m8 rows_reach_def swot_simps nths_Cons)
  have flv: "f_nt fl = 4" "f_iDelete fl = [2]" "f_nDelete fl = 1"
    "f_obs fl = \<lparr>AllObs_h = [[Some 10, Some 11, Some 13, Some 14],
                               [Some 40, Some 41, Some 43, Some 44]],
                   AllObs_w = [[Some 20, Some 21, Some 23, Some 24],
                               [Some 50, Some 51, Some 53, Some 54]],
                   AllObs_S = [[Some 30, Some 31, Some 33, Some 34],
                               [Some 60, Some 61, Some 63, Some 64]]\<rparr>"
    by (simp_all add: fl_def obv n ts validity_filter_def bad_columns_def any_isnan_def
        np_delete_def Let_def upt_rec [of _ 5] upt_rec [of _ 4] upt_rec [of _ "Suc _"])
  have h1: "time_alignment ?rs = Inr al \<and> ntmin_prior \<le> al_nt al \<and> ?rs \<noteq> []
      \<and> (\<forall>t\<in>set (al_overlap_ts al). - 17522856 \<le> t \<and> t \<le> 70126559)
      \<and> (\<forall>r\<in>set ?rs. \<exists>msk f. al_overlap_fs al (reach_id r) = Some msk
             \<and> length (filter (\<lambda>b. b) msk) = al_nt al \<and> swot r = Some f
             \<and> length msk = length f)
      \<and> (\<exists>r\<in>set ?rs. sos_mean_q r = None)
      \<and> ob = \<lparr>AllObs_h = map (\<lambda>r. nths (swot_wse (the (swot r)))
                              {j. the (al_overlap_fs al (reach_id r)) ! j}) ?rs,
            AllObs_w = map (\<lambda>r. nths (swot_width (the (swot r)))
                              {j. the (al_overlap_fs al (reach_id r)) ! j}) ?rs,
            AllObs_S = map (\<lambda>r. nths (swot_slope2 (the (swot r)))
                              {j. the (al_overlap_fs al (reach_id r)) ! j}) ?rs\<rparr>
      \<and> fl = validity_filter ob (al_nt al) (elapsed_days (al_overlap_ts al))"
    using al n ts m3 m8 by (simp add: ntmin_prior_def rows_reach_def ob_def fl_def)
  note inst = undefined_prior_no_short_circuit [of ?rs al ob fl ?rs]
  from inst [THEN conjunct1, THEN mp, OF h1] obtain res where
    r: "retrieve_obs ?rs = Inr res" and q: "SetQuality res = 2"
    and rd: "reads res = concat (map (\<lambda>i. [ReadWse i, ReadWidth i, ReadSlope i, ReadPrior i, ReadReference i])
                         [0..<length ?rs])"
    and qb: "Qbar res = map sos_mean_q ?rs"
    and ao: "AllObs res = Obs (f_obs fl)" and d: "DAll_nt (DAll res) = f_nt fl"
    and led: "ntmin \<le> f_nt fl \<longrightarrow>
                iDelete res = Indices (f_iDelete fl) \<and> nDelete res = f_nDelete fl"
    by blast
  have i: "iDelete res = Indices [2]" and k: "nDelete res = 1"
    using led flv by (simp_all add: ntmin_def)
  have h2: "retrieve_obs ?rs = Inr res \<and> SetQuality res = 2
        \<and> \<not> (iDelete res = Scalar 0 \<and> nDelete res = 0)"
    using r q i by simp
  from inst [of res, THEN conjunct2, THEN mp, OF h2] have "ntmin \<le> DAll_nt (DAll res)"
    by blast
  have rd': "reads res = [ReadWse 0, ReadWidth 0, ReadSlope 0, ReadPrior 0, ReadReference 0,
                      ReadWse 1, ReadWidth 1, ReadSlope 1, ReadPrior 1, ReadReference 1]"
    using rd by (simp add: upt_rec [of _ 2] upt_rec [of _ "Suc _"])
  have qb': "Qbar res = [None, Some 9]"
    using qb by (simp add: rows_reach_def)
  from r q i k rd' qb' d ao flv show ?thesis
    by simp
qed

section \<open>The round trip of the output assembly\<close>

lemma place_length:
  "length (filter (\<lambda>p. p \<notin> set P) ps) \<le> length xs \<Longrightarrow> length (place ps P xs v) = length ps"
proof (induction ps arbitrary: xs)
  case Nil
  then show ?case by simp
next
  case (Cons p ps)
  then show ?case by (cases xs) (auto split: if_splits)
qed

lemma place_nth:
  "length (filter (\<lambda>p. p \<notin> set P) ps) \<le> length xs \<Longrightarrow> i < length ps \<Longrightarrow>
   place ps P xs v ! i =
     (if ps ! i \<in> set P then v else xs ! length (filter (\<lambda>p. p \<notin> set P) (take i ps)))"
proof (induction ps arbitrary: xs i)
  case Nil
  then show ?case by simp
next
  case (Cons p ps)
  show ?case
  proof (cases "p \<in> set P")
    case True
    then show ?thesis
      using Cons.prems Cons.IH [of xs] by (cases i) auto
  next
    case False
    with Cons.prems(1) obtain x xs' where xs: "xs = x # xs'" by (cases xs) auto
    show ?thesis
      using False Cons.prems Cons.IH [of xs'] by (cases i) (auto simp: xs)
  qed
qed

lemma fold_mark_length: "length (fold (\<lambda>d a. a[d := v]) D a) = length a"
  by (induction D arbitrary: a) simp_all

lemma fold_mark_nth:
  "q < length a \<Longrightarrow> fold (\<lambda>d a. a[d := v]) D a ! q = (if q \<in> set D then v else a ! q)"
proof (induction D arbitrary: a)
  case Nil
  then show ?case by simp
next
  case (Cons d D)
  then show ?case by (auto simp: nth_list_update)
qed

lemma fold_store_length: "length (fold (\<lambda>(p, x) a. a[p := x]) kvs a) = length a"
  by (induction kvs arbitrary: a) auto

lemma fold_store_nth:
  "distinct (map fst kvs) \<Longrightarrow> q < length a \<Longrightarrow>
   fold (\<lambda>(p, x) a. a[p := x]) kvs a ! q = (case map_of kvs q of Some x \<Rightarrow> x | None \<Rightarrow> a ! q)"
proof (induction kvs arbitrary: a)
  case Nil
  then show ?case by simp
next
  case (Cons kv kvs)
  obtain p x where kv: "kv = (p, x)" by (cases kv)
  have notin: "map_of kvs p = None"
    using Cons.prems(1) by (simp add: kv map_of_eq_None_iff)
  show ?case
  proof (cases "q = p")
    case True
    then show ?thesis
      using Cons.prems Cons.IH [of "a[p := x]"] notin by (simp add: kv)
  next
    case False
    then show ?thesis
      using Cons.prems Cons.IH [of "a[p := x]"]
      by (simp add: kv nth_list_update split: option.splits)
  qed
qed


lemma upt_split_at:
  assumes "q < n"
  shows "[0..<n] = [0..<q] @ q # [Suc q..<n]"
proof -
  have "[0..<q + (n - q)] = [0..<q] @ [q..<q + (n - q)]"
    by (rule upt_add_eq_append) simp
  then have "[0..<n] = [0..<q] @ [q..<n]"
    using assms by simp
  moreover have "[q..<n] = q # [Suc q..<n]"
    using assms by (rule upt_conv_Cons)
  ultimately show ?thesis by (simp only:)
qed

lemma complement_split:
  assumes "q < n" and "q \<notin> set D"
  shows "complement n D =
    filter (\<lambda>p. p \<notin> set D) [0..<q] @ q # filter (\<lambda>p. p \<notin> set D) [Suc q..<n]"
proof -
  have "complement n D = filter (\<lambda>p. p \<notin> set D) ([0..<q] @ q # [Suc q..<n])"
    unfolding complement_def using upt_split_at [OF assms(1)] by (simp only:)
  also have "\<dots> = filter (\<lambda>p. p \<notin> set D) [0..<q] @ q # filter (\<lambda>p. p \<notin> set D) [Suc q..<n]"
    using assms(2) by simp
  finally show ?thesis .
qed

lemma complement_nth:
  assumes "q < n" and "q \<notin> set D"
  shows "complement n D ! length (filter (\<lambda>p. p \<notin> set D) [0..<q]) = q"
    and "length (filter (\<lambda>p. p \<notin> set D) [0..<q]) < length (complement n D)"
proof -
  note c = complement_split [OF assms]
  show "complement n D ! length (filter (\<lambda>p. p \<notin> set D) [0..<q]) = q"
    unfolding c by (rule nth_append_length)
  show "length (filter (\<lambda>p. p \<notin> set D) [0..<q]) < length (complement n D)"
    unfolding c by simp
qed


lemma complement_length:
  assumes "distinct D" and "\<forall>d\<in>set D. d < n"
  shows "length (complement n D) + length D = n"
proof -
  have a: "length (filter (\<lambda>p. p \<in> set D) [0..<n]) + length (filter (\<lambda>p. \<not> p \<in> set D) [0..<n])
        = length [0..<n]"
    by (rule sum_length_filter_compl)
  have "set (filter (\<lambda>p. p \<in> set D) [0..<n]) = set D"
  proof (rule set_eqI)
    fix x show "x \<in> set (filter (\<lambda>p. p \<in> set D) [0..<n]) \<longleftrightarrow> x \<in> set D"
      using assms(2) by (cases "x \<in> set D") simp_all
  qed
  moreover have "distinct (filter (\<lambda>p. p \<in> set D) [0..<n])" by simp
  ultimately have "length (filter (\<lambda>p. p \<in> set D) [0..<n]) = card (set D)"
    using distinct_card [of "filter (\<lambda>p. p \<in> set D) [0..<n]"] by simp
  moreover have "card (set D) = length D"
    using assms(1) by (rule distinct_card)
  ultimately show ?thesis using a by (simp add: complement_def)
qed


lemma place_is_scatter:
  assumes d: "distinct D" and r: "\<forall>d\<in>set D. d < length F + length D"
  shows "place [0..<length F + length D] D F v = scatter F D (length F + length D) v"
proof (rule nth_equalityI)
  let ?n = "length F + length D"
  let ?C = "complement ?n D"
  have lenC: "length ?C = length F"
    using complement_length [OF d r] by simp
  have cnt: "length (filter (\<lambda>p. p \<notin> set D) [0..<?n]) \<le> length F"
    using lenC by (simp add: complement_def)
  show len: "length (place [0..<?n] D F v) = length (scatter F D ?n v)"
    using place_length [OF cnt] by (simp add: scatter_def fold_mark_length fold_store_length)
  fix q assume "q < length (place [0..<?n] D F v)"
  then have q: "q < ?n" using place_length [OF cnt, of v] by simp
  have dC: "distinct ?C" by (simp add: complement_def)
  have left: "place [0..<?n] D F v ! q =
      (if q \<in> set D then v else F ! length (filter (\<lambda>p. p \<notin> set D) [0..<q]))"
    using place_nth [OF cnt, of q v] q by (simp add: take_upt)
  have right: "scatter F D ?n v ! q =
      (if q \<in> set D then v
       else (case map_of (zip ?C F) q of Some x \<Rightarrow> x | None \<Rightarrow> replicate ?n 0 ! q))"
    unfolding scatter_def
    using q dC lenC by (simp add: fold_mark_nth fold_store_length fold_store_nth)
  show "place [0..<?n] D F v ! q = scatter F D ?n v ! q"
  proof (cases "q \<in> set D")
    case True
    then show ?thesis using left right by simp
  next
    case False
    let ?m = "length (filter (\<lambda>p. p \<notin> set D) [0..<q])"
    from complement_nth [OF q False] have at: "?C ! ?m = q" and m: "?m < length ?C"
      by simp_all
    have "map_of (zip ?C F) (?C ! ?m) = Some (F ! ?m)"
      using lenC dC m by (intro map_of_zip_nth) simp_all
    then have "map_of (zip ?C F) q = Some (F ! ?m)" by (simp only: at)
    then show ?thesis using left right False by simp
  qed
qed

lemma ascending_step:
  assumes "sorted_wrt (<) D" and "i \<le> j" and "j < length D"
  shows "int (D ! i) - int i \<le> int (D ! j) - int j"
  using assms(2,3)
proof (induction j rule: dec_induct)
  case base
  then show ?case by simp
next
  case (step n)
  have "D ! n < D ! Suc n"
    using assms(1) step.prems by (simp add: sorted_wrt_nth_less)
  moreover have "int (D ! i) - int i \<le> int (D ! n) - int n"
    using step by simp
  ultimately show ?case by simp
qed

lemma ascending_targets:
  assumes "sorted_wrt (<) D"
  shows "sorted (map (\<lambda>j. int (D ! j) - int j) [0..<length D])"
    and "\<forall>i\<in>set (map (\<lambda>j. int (D ! j) - int j) [0..<length D]). 0 \<le> i"
proof -
  show "sorted (map (\<lambda>j. int (D ! j) - int j) [0..<length D])"
    using ascending_step [OF assms] by (simp add: sorted_iff_nth_mono)
  show "\<forall>i\<in>set (map (\<lambda>j. int (D ! j) - int j) [0..<length D]). 0 \<le> i"
  proof
    fix i assume "i \<in> set (map (\<lambda>j. int (D ! j) - int j) [0..<length D])"
    then obtain j where j: "j < length D" and i: "i = int (D ! j) - int j" by auto
    have "int (D ! 0) - int 0 \<le> int (D ! j) - int j"
      using assms j by (intro ascending_step) simp_all
    then show "0 \<le> i" using i by simp
  qed
qed

lemma place_none: "length ps = length xs \<Longrightarrow> place ps [] xs v = xs"
  by (induction ps xs rule: list_induct2) simp_all

lemma np_insert_ascending:
  assumes asc: "sorted_wrt (<) D" and rng: "\<forall>d\<in>set D. d < length row + length D"
  shows "np_insert row (map (\<lambda>j. int (D ! j) - int j) [0..<length D]) v =
           Inr (place [0..<length row + length D] D row v)"
proof -
  let ?idx = "map (\<lambda>j. int (D ! j) - int j) [0..<length D]"
  let ?N = "int (length row)"
  let ?M = "?N + int (length D)"
  note t = ascending_targets [OF asc]
  have shift: "map (\<lambda>i. if i < 0 then i + ?N else i) ?idx = ?idx"
    using t(2) by (intro map_idI) auto
  have srt: "sort ?idx = ?idx"
    using t(1) by (rule sorted_sort_id)
  have moved: "map (\<lambda>j. ?idx ! j + int j) [0..<length D] = map int D"
    by (rule nth_equalityI) simp_all
  have inr: "\<not> list_ex (\<lambda>p. p < - ?M \<or> p \<ge> ?M) (map int D)"
    using rng by (auto simp: list_ex_iff)
  have P: "map (\<lambda>p. nat (if p < 0 then p + ?M else p)) (map int D) = D"
    by (rule nth_equalityI) simp_all
  have dist: "distinct D"
    using asc by (simp add: strict_sorted_iff)
  have one: "\<not> (length D = 1 \<and> (hd ?idx < - ?N \<or> hd ?idx > ?N))"
  proof
    assume a: "length D = 1 \<and> (hd ?idx < - ?N \<or> hd ?idx > ?N)"
    then obtain d where D: "D = [d]" by (cases D) auto
    with rng have "d \<le> length row" by simp
    with a D show False by simp
  qed
  have len: "length ?idx = length D" by simp
  show ?thesis
    unfolding np_insert_def Let_def
    by (simp only: len one if_False shift srt moved inr P dist not_True_eq_False)
qed

lemma scatter_length: "length (scatter F D n v) = n"
  by (simp add: scatter_def fold_mark_length fold_store_length)

text \<open>
  C1. For a strictly ascending ledger \<open>D\<close> whose indices are below the pre-filter count
  \<open>length F + length D\<close>, step 1 of \<open>write_output\<close> (\<open>np.insert\<close> of the fill value at
  the targets \<open>D[j] - j\<close>, each counted in the filtered row \<open>F\<close> as it is before any
  insertion) yields the row that holds the fill value at every index of \<open>D\<close> and the
  entries of \<open>F\<close>, in order, at the other indices of a zero-initialised row of the
  pre-filter length. Its length is \<open>length F + length D\<close>, and with an empty ledger,
  index array or integer 0, the row is returned as it is.
\<close>

theorem assemble_round_trip:
  assumes "sorted_wrt (<) D" and "\<forall>d\<in>set D. d < length F + length D"
  shows "assemble F (Indices D) (length D) = Inr (scatter F D (length F + length D) fillvalue)
       \<and> length (scatter F D (length F + length D) fillvalue) = length F + length D
       \<and> assemble F (Indices []) 0 = Inr F \<and> assemble F (Scalar 0) 0 = Inr F"
proof -
  have d: "distinct D"
    using assms(1) by (simp add: strict_sorted_iff)
  have "assemble F (Indices D) (length D) =
          np_insert F (map (\<lambda>j. int (D ! j) - int j) [0..<length D]) fillvalue"
    by (simp add: assemble_def insert_targets_def)
  also have "\<dots> = Inr (place [0..<length F + length D] D F fillvalue)"
    using assms by (rule np_insert_ascending)
  also have "place [0..<length F + length D] D F fillvalue =
               scatter F D (length F + length D) fillvalue"
    using d assms(2) by (rule place_is_scatter)
  finally have a: "assemble F (Indices D) (length D) =
      Inr (scatter F D (length F + length D) fillvalue)" .
  have e: "np_insert F [] fillvalue = Inr F"
    by (simp add: np_insert_def place_none)
  have b: "assemble F (Indices []) 0 = Inr F" "assemble F (Scalar 0) 0 = Inr F"
    using e by (simp_all add: assemble_def insert_targets_def)
  from a b show ?thesis
    by (simp add: scatter_length)
qed

theorem assemble_round_trip_witness:
  "assemble [1, 2, 3, 4] (Indices [1, 3]) 2 = Inr [1, fillvalue, 2, fillvalue, 3, 4]
   \<and> scatter [1, 2, 3, 4] [1, 3] 6 fillvalue = [1, fillvalue, 2, fillvalue, 3, 4]
   \<and> assemble [1, 2, 3, 4] (Indices []) 0 = Inr [1, 2, 3, 4]"
proof -
  have s: "scatter [1, 2, 3, 4] [1, 3] 6 fillvalue = [1, fillvalue, 2, fillvalue, 3, 4]"
    by (simp add: scatter_def complement_def upt_rec [of _ 6] upt_rec [of _ "Suc _"]
        numeral_eq_Suc)
  have l: "length [1::nat, 3] = 2" "length [1::real, 2, 3, 4] + 2 = 6"
    by simp_all
  have "sorted_wrt (<) [1::nat, 3]"
    and "\<forall>d\<in>set [1::nat, 3]. d < length [1::real, 2, 3, 4] + length [1::nat, 3]"
    by simp_all
  from assemble_round_trip [OF this] have
    "assemble [1, 2, 3, 4] (Indices [1, 3]) 2 = Inr (scatter [1, 2, 3, 4] [1, 3] 6 fillvalue)"
    and "assemble [1, 2, 3, 4] (Indices []) 0 = Inr [1, 2, 3, 4]"
    unfolding l by blast+
  with s show ?thesis
    by (simp only: simp_thms)
qed

end
